theory Spec2Isabelle
  imports Complex_Main "HOL-Library.Word" "HOL-Library.AList"
begin

section \<open>Strings\<close>

text \<open>
  A JavaScript string is a sequence of 16-bit code units; \<open>length\<close> is the
  source's \<^verbatim>\<open>.length\<close>. A string is truthy iff it is not empty.
\<close>

type_synonym jschar = "16 word"
type_synonym jsstring = "jschar list"

definition lit :: "string \<Rightarrow> jsstring" where
  "lit s = map of_char s"

definition ja :: jsstring where
  "ja = [0x6A, 0x61]"

definition zh :: jsstring where
  "zh = [0x7A, 0x68]"

text \<open>
  \<^verbatim>\<open>String.prototype.trim\<close> strips WhiteSpace and LineTerminator code points
  (ECMAScript: TAB, VT, FF, SP, NBSP, ZWNBSP, the Zs category, LF, CR, LS, PS)
  from both ends.
\<close>

definition isWhiteSpace :: "jschar \<Rightarrow> bool" where
  "isWhiteSpace c \<longleftrightarrow>
     c \<in> {0x0009, 0x000A, 0x000B, 0x000C, 0x000D, 0x0020, 0x00A0, 0x1680,
          0x2000, 0x2001, 0x2002, 0x2003, 0x2004, 0x2005, 0x2006, 0x2007,
          0x2008, 0x2009, 0x200A, 0x2028, 0x2029, 0x202F, 0x205F, 0x3000, 0xFEFF}"

definition trim :: "jsstring \<Rightarrow> jsstring" where
  "trim s = rev (dropWhile isWhiteSpace (rev (dropWhile isWhiteSpace s)))"

section \<open>The LRU cache\<close>

text \<open>
  \<^verbatim>\<open>class LRUCache\<close>: \<open>cache\<close> is the JavaScript \<^verbatim>\<open>Map\<close> (an association
  list in insertion order, \<^verbatim>\<open>Map.set\<close> is \<open>AList.update\<close>, \<^verbatim>\<open>Map.delete\<close> is
  \<open>AList.delete\<close>, \<^verbatim>\<open>Map.size\<close> is \<open>length\<close>); \<open>keys\<close> is the recency array,
  most recently used first.
\<close>

record LRUCache =
  cache :: "(jsstring \<times> jsstring) list"
  maxSize :: nat
  keys :: "jsstring list"

definition new_LRUCache :: "nat \<Rightarrow> LRUCache" where
  "new_LRUCache m = \<lparr>cache = [], maxSize = m, keys = []\<rparr>"

definition getKey :: "jsstring \<Rightarrow> jsstring \<Rightarrow> jsstring \<Rightarrow> jsstring" where
  "getKey sourceLang targetLang t = sourceLang @ [0x5F] @ targetLang @ [0x5F] @ t"

text \<open>\<^verbatim>\<open>if (value)\<close>: the value is present and not the empty string.\<close>

fun truthy :: "jsstring option \<Rightarrow> bool" where
  "truthy None = False"
| "truthy (Some v) = (v \<noteq> [])"

definition lru_get :: "LRUCache \<Rightarrow> jsstring \<Rightarrow> jsstring \<Rightarrow> jsstring \<Rightarrow> jsstring option \<times> LRUCache" where
  "lru_get c sourceLang targetLang t =
     (let key = getKey sourceLang targetLang t;
          value = map_of (cache c) key
      in (value,
          if truthy value
          then c\<lparr>keys := key # filter (\<lambda>k. k \<noteq> key) (keys c)\<rparr>
          else c))"

text \<open>
  \<^verbatim>\<open>keys.pop()\<close> removes and returns the last element, \<^verbatim>\<open>undefined\<close> on an empty
  array; \<^verbatim>\<open>if (oldestKey)\<close> then skips the deletion for \<^verbatim>\<open>undefined\<close> and for
  the empty string.
\<close>

definition lru_set :: "LRUCache \<Rightarrow> jsstring \<Rightarrow> jsstring \<Rightarrow> jsstring \<Rightarrow> jsstring \<Rightarrow> LRUCache" where
  "lru_set c sourceLang targetLang t translatedText =
     (let key = getKey sourceLang targetLang t;
          c1 = (if map_of (cache c) key \<noteq> None
                then c\<lparr>keys := filter (\<lambda>k. k \<noteq> key) (keys c)\<rparr>
                else if length (cache c) \<ge> maxSize c
                then (let oldestKey = (if keys c = [] then None else Some (last (keys c)));
                          c' = c\<lparr>keys := butlast (keys c)\<rparr>
                      in if truthy oldestKey
                         then c'\<lparr>cache := AList.delete (the oldestKey) (cache c')\<rparr>
                         else c')
                else c)
      in c1\<lparr>cache := AList.update key translatedText (cache c1), keys := key # keys c1\<rparr>)"

definition lru_clear :: "LRUCache \<Rightarrow> LRUCache" where
  "lru_clear c = c\<lparr>cache := [], keys := []\<rparr>"









subsection \<open>Invariants of the cache\<close>



subsection \<open>A cache holding an empty translation\<close>







section \<open>The translation service\<close>

text \<open>
  \<^verbatim>\<open>interface TranslationOptions\<close>. The field \<^verbatim>\<open>text\<close> is written \<open>text'\<close>.
\<close>

record TranslationOptions =
  sourceLanguage :: jsstring
  targetLanguage :: jsstring
  text' :: jsstring

subsection \<open>One remote call\<close>

text \<open>
  What a \<^verbatim>\<open>fetch\<close> of the translation endpoint can come back with, as
  \<^verbatim>\<open>translateWithGoogleAPI\<close> tells the cases apart: the request was aborted by the
  timeout, the fetch itself failed, the status was not ok, the JSON was not a
  non-empty array of a non-empty array, the innermost entry was missing or not a
  string, or it was the string given.
\<close>

datatype response =
  Aborted
| FetchFailed
| HttpStatus nat
| Malformed
| NoTranslation
| Translated jsstring

text \<open>
  The errors thrown. \<open>TranslationFailed\<close> is the error built after the last attempt;
  it carries the last underlying error (the per-category counts in its message are
  not modelled).
\<close>

datatype failure =
  UnsupportedPair
| TextOverLimit
| RequestTimeout
| NetworkError
| HttpError nat
| ResponseFormat
| TranslationFailed failure

text \<open>
  \<^verbatim>\<open>text.trim().replace(/[\r\n]+/g, ' ')\<close>: every maximal run of CR and LF becomes
  one space.
\<close>

definition isLineBreak :: "jschar \<Rightarrow> bool" where
  "isLineBreak c \<longleftrightarrow> c = 0x000D \<or> c = 0x000A"

fun replaceLineBreaks :: "bool \<Rightarrow> jsstring \<Rightarrow> jsstring" where
  "replaceLineBreaks inRun [] = []"
| "replaceLineBreaks inRun (c # cs) =
     (if isLineBreak c
      then (if inRun then replaceLineBreaks True cs else 0x0020 # replaceLineBreaks True cs)
      else c # replaceLineBreaks False cs)"

definition maxTextLength :: nat where
  "maxTextLength = 5000"

definition processedText :: "jsstring \<Rightarrow> jsstring" where
  "processedText t = replaceLineBreaks False (trim t)"

text \<open>
  \<^verbatim>\<open>translateWithGoogleAPI\<close>, as a function of the response. A text over the limit
  throws before any request is made. An empty or blank translation is replaced by
  the original text.
\<close>

definition translateWithGoogleAPI :: "TranslationOptions \<Rightarrow> response \<Rightarrow> failure + jsstring" where
  "translateWithGoogleAPI options resp =
     (if sourceLanguage options \<noteq> ja \<or> targetLanguage options \<noteq> zh then Inl UnsupportedPair
      else if length (processedText (text' options)) > maxTextLength then Inl TextOverLimit
      else (case resp of
              Aborted \<Rightarrow> Inl RequestTimeout
            | FetchFailed \<Rightarrow> Inl NetworkError
            | HttpStatus status \<Rightarrow> Inl (HttpError status)
            | Malformed \<Rightarrow> Inl ResponseFormat
            | NoTranslation \<Rightarrow> Inr (text' options)
            | Translated translatedText \<Rightarrow>
                if translatedText = [] then Inr (text' options)
                else if trim translatedText = [] then Inr (text' options)
                else Inr translatedText))"

subsection \<open>State of the service\<close>

text \<open>
  JavaScript runs one task at a time, so the service is a transition system whose
  steps are the synchronous stretches of the code between two \<^verbatim>\<open>await\<close>s. Besides
  the fields of \<^verbatim>\<open>class TranslationService\<close> the state holds what the runtime
  keeps: the promises created by \<^verbatim>\<open>translate\<close> (numbered in creation order), the
  activations of \<^verbatim>\<open>executeTranslationTask\<close> waiting for a response (promise,
  options, \<^verbatim>\<open>attempts\<close>), the calls of \<^verbatim>\<open>translate\<close> suspended at
  \<^verbatim>\<open>await translationPromise\<close>, and the number of requests sent so far. A queue
  item is its options and the promise its \<^verbatim>\<open>resolve\<close> and \<^verbatim>\<open>reject\<close> settle.
\<close>

datatype promise = Pending | Fulfilled jsstring | Rejected failure

record TranslationService =
  resultCache :: LRUCache
  promiseCache :: "(jsstring \<times> nat) list"
  maxConcurrent :: int
  activeTranslations :: int
  translationQueue :: "(TranslationOptions \<times> nat) list"
  isProcessing :: bool
  promises :: "nat \<Rightarrow> promise"
  nextPromise :: nat
  executing :: "(nat \<times> TranslationOptions \<times> nat) list"
  suspended :: "(nat \<times> TranslationOptions) list"
  remoteCalls :: nat

definition new_TranslationService :: TranslationService where
  "new_TranslationService =
     \<lparr>resultCache = new_LRUCache 1000, promiseCache = [], maxConcurrent = 40,
      activeTranslations = 0, translationQueue = [], isProcessing = False,
      promises = (\<lambda>p. Pending), nextPromise = 0, executing = [], suspended = [],
      remoteCalls = 0\<rparr>"

subsection \<open>The queue\<close>

text \<open>
  \<open>issueRequest\<close> is the start of one attempt: \<^verbatim>\<open>translateWithGoogleAPI\<close> runs up
  to its \<^verbatim>\<open>fetch\<close>, which is reached unless the language pair or the length check
  throws first. The delays between attempts are not modelled.
\<close>

definition maxAttempts :: nat where
  "maxAttempts = 3"

definition issueRequest :: "TranslationService \<Rightarrow> TranslationOptions \<Rightarrow> TranslationService" where
  "issueRequest s options =
     (if sourceLanguage options \<noteq> ja \<or> targetLanguage options \<noteq> zh then s
      else if length (processedText (text' options)) > maxTextLength then s
      else s\<lparr>remoteCalls := remoteCalls s + 1\<rparr>)"

definition executeTranslationTask ::
  "TranslationService \<Rightarrow> TranslationOptions \<times> nat \<Rightarrow> TranslationService" where
  "executeTranslationTask s task =
     issueRequest (s\<lparr>executing := executing s @ [(snd task, fst task, 0)]\<rparr>) (fst task)"

text \<open>
  The \<^verbatim>\<open>while\<close> loop of \<^verbatim>\<open>processQueueIterative\<close>; its first argument is the
  queue still to be looked at.
\<close>

fun dispatchLoop ::
  "(TranslationOptions \<times> nat) list \<Rightarrow> TranslationService \<Rightarrow> TranslationService" where
  "dispatchLoop [] s = s"
| "dispatchLoop (task # queue) s =
     (if activeTranslations s < maxConcurrent s
      then dispatchLoop queue
             (executeTranslationTask
                (s\<lparr>translationQueue := queue, activeTranslations := activeTranslations s + 1\<rparr>)
                task)
      else s)"

definition processQueueIterative :: "TranslationService \<Rightarrow> TranslationService" where
  "processQueueIterative s =
     (let s' = dispatchLoop (translationQueue s) s
      in s'\<lparr>isProcessing := (translationQueue s' \<noteq> [] \<or> activeTranslations s' > 0)\<rparr>)"

definition startProcessingQueue :: "TranslationService \<Rightarrow> TranslationService" where
  "startProcessingQueue s =
     (if isProcessing s then s else processQueueIterative (s\<lparr>isProcessing := True\<rparr>))"

subsection \<open>translate\<close>

text \<open>
  The synchronous part of \<^verbatim>\<open>translate\<close>, up to its return or its \<^verbatim>\<open>await\<close>. The
  call throws, returns a text, returns the promise found in \<open>promiseCache\<close>
  (\<open>Attached\<close>), or creates a promise, queues a request and suspends
  (\<open>Created\<close>).
\<close>

datatype completion = Throws failure | Returns jsstring | Attached nat | Created nat

definition translate :: "TranslationService \<Rightarrow> TranslationOptions \<Rightarrow> completion \<times> TranslationService" where
  "translate s options =
     (if sourceLanguage options \<noteq> ja \<or> targetLanguage options \<noteq> zh
      then (Throws UnsupportedPair, s)
      else if trim (text' options) = [] then (Returns (text' options), s)
      else (let (cachedResult, c) =
                  lru_get (resultCache s) (sourceLanguage options) (targetLanguage options)
                    (text' options);
                s1 = s\<lparr>resultCache := c\<rparr>
            in if truthy cachedResult then (Returns (the cachedResult), s1)
               else (let cacheKey = getKey (sourceLanguage options) (targetLanguage options)
                                      (text' options)
                     in case map_of (promiseCache s1) cacheKey of
                          Some p \<Rightarrow> (Attached p, s1)
                        | None \<Rightarrow>
                            (let p = nextPromise s1;
                                 s2 = s1\<lparr>nextPromise := p + 1,
                                         translationQueue := translationQueue s1 @ [(options, p)]\<rparr>;
                                 s3 = s2\<lparr>promiseCache := AList.update cacheKey p (promiseCache s2)\<rparr>;
                                 s4 = startProcessingQueue s3
                             in (Created p, s4\<lparr>suspended := suspended s4 @ [(p, options)]\<rparr>)))))"

text \<open>
  A response arrives for the task of promise \<open>p\<close>. On success the promise is
  resolved; on failure \<^verbatim>\<open>attempts\<close> is incremented and the request is sent again
  while \<^verbatim>\<open>attempts <= maxAttempts\<close>, otherwise the promise is rejected. The
  \<^verbatim>\<open>finally\<close> block decrements the counter and calls
  \<^verbatim>\<open>processQueueIterative\<close>.
\<close>

definition settle :: "TranslationService \<Rightarrow> nat \<Rightarrow> promise \<Rightarrow> TranslationService" where
  "settle s p outcome =
     processQueueIterative
       (s\<lparr>promises := (promises s)(p := outcome),
          executing := filter (\<lambda>e. fst e \<noteq> p) (executing s),
          activeTranslations := activeTranslations s - 1\<rparr>)"

definition respond :: "TranslationService \<Rightarrow> nat \<Rightarrow> response \<Rightarrow> TranslationService" where
  "respond s p resp =
     (case find (\<lambda>e. fst e = p) (executing s) of
        None \<Rightarrow> s
      | Some (_, options, attempts) \<Rightarrow>
          (case translateWithGoogleAPI options resp of
             Inr translatedText \<Rightarrow> settle s p (Fulfilled translatedText)
           | Inl e \<Rightarrow>
               if attempts + 1 \<le> maxAttempts
               then issueRequest
                      (s\<lparr>executing := map (\<lambda>x. if fst x = p then (p, options, attempts + 1) else x)
                                          (executing s)\<rparr>)
                      options
               else settle s p (Rejected (TranslationFailed e))))"

text \<open>
  The call suspended on promise \<open>p\<close> continues once the promise is settled: a result
  is stored in the result cache, and in both cases the \<^verbatim>\<open>finally\<close> block deletes the
  entry of \<open>promiseCache\<close>.
\<close>

definition resume :: "TranslationService \<Rightarrow> nat \<Rightarrow> TranslationService" where
  "resume s p =
     (case find (\<lambda>w. fst w = p) (suspended s) of
        None \<Rightarrow> s
      | Some (_, options) \<Rightarrow>
          (let cacheKey = getKey (sourceLanguage options) (targetLanguage options) (text' options)
           in case promises s p of
                Pending \<Rightarrow> s
              | Fulfilled translatedText \<Rightarrow>
                  s\<lparr>resultCache := lru_set (resultCache s) (sourceLanguage options)
                                      (targetLanguage options) (text' options) translatedText,
                    promiseCache := AList.delete cacheKey (promiseCache s),
                    suspended := filter (\<lambda>w. fst w \<noteq> p) (suspended s)\<rparr>
              | Rejected e \<Rightarrow>
                  s\<lparr>promiseCache := AList.delete cacheKey (promiseCache s),
                    suspended := filter (\<lambda>w. fst w \<noteq> p) (suspended s)\<rparr>))"

definition clearCache :: "TranslationService \<Rightarrow> TranslationService" where
  "clearCache s = s\<lparr>resultCache := lru_clear (resultCache s)\<rparr>"

definition setMaxConcurrent :: "TranslationService \<Rightarrow> int \<Rightarrow> TranslationService" where
  "setMaxConcurrent s concurrent =
     startProcessingQueue (s\<lparr>maxConcurrent := max 1 (min 50 concurrent)\<rparr>)"

subsection \<open>Runs\<close>

text \<open>
  Everything that can happen to the service: a call of \<^verbatim>\<open>translate\<close>, a response to
  a request, the continuation of a suspended call, a direct read of the result cache
  (as \<^verbatim>\<open>translateBatch\<close> does), \<^verbatim>\<open>clearCache\<close> and \<^verbatim>\<open>setMaxConcurrent\<close>.
\<close>

datatype event =
  Translate TranslationOptions
| Respond nat response
| Resume nat
| CacheLookup jsstring jsstring jsstring
| ClearCache
| SetMaxConcurrent int

fun step :: "TranslationService \<Rightarrow> event \<Rightarrow> TranslationService" where
  "step s (Translate options) = snd (translate s options)"
| "step s (Respond p resp) = respond s p resp"
| "step s (Resume p) = resume s p"
| "step s (CacheLookup a b t) = s\<lparr>resultCache := snd (lru_get (resultCache s) a b t)\<rparr>"
| "step s ClearCache = clearCache s"
| "step s (SetMaxConcurrent n) = setMaxConcurrent s n"

definition run :: "event list \<Rightarrow> TranslationService" where
  "run events = foldl step new_TranslationService events"

definition opts :: "jsstring \<Rightarrow> TranslationOptions" where
  "opts t = \<lparr>sourceLanguage = ja, targetLanguage = zh, text' = t\<rparr>"

subsection \<open>Invariant\<close>

definition supported :: "TranslationOptions \<Rightarrow> bool" where
  "supported options \<longleftrightarrow> sourceLanguage options = ja \<and> targetLanguage options = zh"

definition cacheKeyOf :: "TranslationOptions \<Rightarrow> jsstring" where
  "cacheKeyOf options = getKey (sourceLanguage options) (targetLanguage options) (text' options)"

text \<open>The requests queued or being executed, as pairs of promise and options.\<close>

definition requests :: "TranslationService \<Rightarrow> (nat \<times> TranslationOptions) list" where
  "requests s = map (\<lambda>(options, p). (p, options)) (translationQueue s) @
                map (\<lambda>(p, options, attempts). (p, options)) (executing s)"

text \<open>
  Every suspended call has its own entry in \<open>promiseCache\<close> and nothing usable in the
  result cache, every entry of \<open>promiseCache\<close> belongs to a suspended call, requests
  are for supported, non-blank texts, and no promise is fulfilled with the empty
  string.
\<close>

definition consistent :: "TranslationService \<Rightarrow> bool" where
  "consistent s \<longleftrightarrow>
     distinct (map fst (promiseCache s)) \<and>
     distinct (map fst (suspended s)) \<and>
     (\<forall>(p, options) \<in> set (suspended s).
        p < nextPromise s \<and> supported options \<and> trim (text' options) \<noteq> [] \<and>
        map_of (promiseCache s) (cacheKeyOf options) = Some p \<and>
        \<not> truthy (map_of (cache (resultCache s)) (cacheKeyOf options))) \<and>
     (\<forall>(k, p) \<in> set (promiseCache s).
        \<exists>options. (p, options) \<in> set (suspended s) \<and> cacheKeyOf options = k) \<and>
     (\<forall>(p, options) \<in> set (requests s). supported options \<and> trim (text' options) \<noteq> []) \<and>
     (\<forall>p t. promises s p = Fulfilled t \<longrightarrow> t \<noteq> [])"

subsection \<open>Example states\<close>

definition stale_service :: TranslationService where
  "stale_service =
     new_TranslationService\<lparr>resultCache := lru_set (new_LRUCache 1000) ja zh [0x61] []\<rparr>"

definition first_call :: "event list" where
  "first_call = [Translate (opts [0x61]), Respond 0 (Translated [0x4F60])]"

definition two_calls :: "event list" where
  "two_calls = [Translate (opts [0x61]), Translate (opts [0x62]), Respond 0 (Translated [0x4F60])]"

section \<open>translateBatch\<close>

text \<open>The entries of \<^verbatim>\<open>tasks\<close>: \<^verbatim>\<open>{ index, text, length }\<close>.\<close>

record task =
  task_index :: nat
  task_text :: jsstring
  task_length :: nat

text \<open>
  \<^verbatim>\<open>Math.floor(Math.sqrt(n) * 5)\<close> is \<open>floor_sqrt (25 * n)\<close>: the integer square root,
  computed by counting up. (For an array length \<open>n\<close> the double result has the same
  floor as the real one.)
\<close>

fun floor_sqrt :: "nat \<Rightarrow> nat" where
  "floor_sqrt 0 = 0"
| "floor_sqrt (Suc n) = (let r = floor_sqrt n in if (r + 1) * (r + 1) \<le> Suc n then r + 1 else r)"

definition baseBatchSize :: nat where
  "baseBatchSize = 50"

definition maxCharsPerBatch :: nat where
  "maxCharsPerBatch = 10000"

text \<open>
  \<^verbatim>\<open>Math.floor(maxCharsPerBatch / Math.max(1, totalChars / tasks.length || 1))\<close>, read
  over the rationals: \<^verbatim>\<open>0/0\<close> is \<^verbatim>\<open>NaN\<close> and \<^verbatim>\<open>0/m\<close> is \<^verbatim>\<open>0\<close>, both replaced by
  1; an average of at most 1 is raised to 1.
\<close>

definition totalChars :: "task list \<Rightarrow> nat" where
  "totalChars tasks = foldl (\<lambda>sum task. sum + task_length task) 0 tasks"

definition charsPerBatchTerm :: "task list \<Rightarrow> nat" where
  "charsPerBatchTerm tasks =
     (if length tasks = 0 \<or> totalChars tasks \<le> length tasks then maxCharsPerBatch
      else (maxCharsPerBatch * length tasks) div totalChars tasks)"

definition dynamicBatchSize :: "nat \<Rightarrow> task list \<Rightarrow> nat" where
  "dynamicBatchSize n tasks =
     max 10 (min baseBatchSize (min (floor_sqrt (25 * n)) (charsPerBatchTerm tasks)))"


text \<open>
  The first loop: every text is looked up in the result cache; a truthy value fills
  its slot, any other text becomes a task. \<^verbatim>\<open>new Array(n)\<close> is a list of \<open>None\<close>.
\<close>

fun scanCache ::
  "LRUCache \<Rightarrow> jsstring \<Rightarrow> jsstring \<Rightarrow> jsstring list \<Rightarrow> nat \<Rightarrow> jsstring option list \<Rightarrow> task list
   \<Rightarrow> LRUCache \<times> jsstring option list \<times> task list" where
  "scanCache c sourceLang targetLang [] i results tasks = (c, results, tasks)"
| "scanCache c sourceLang targetLang (t # ts) i results tasks =
     (let (cachedResult, c') = lru_get c sourceLang targetLang t
      in if truthy cachedResult
         then scanCache c' sourceLang targetLang ts (i + 1) (results[i := cachedResult]) tasks
         else scanCache c' sourceLang targetLang ts (i + 1) results
                (tasks @ [\<lparr>task_index = i, task_text = t, task_length = length t\<rparr>]))"

text \<open>\<^verbatim>\<open>Promise.all\<close>: the results in order, or a rejection if one promise rejects.\<close>

fun awaitAll :: "(failure + 'a) list \<Rightarrow> failure + 'a list" where
  "awaitAll [] = Inr []"
| "awaitAll (Inl e # ps) = Inl e"
| "awaitAll (Inr x # ps) = (case awaitAll ps of Inl e \<Rightarrow> Inl e | Inr xs \<Rightarrow> Inr (x # xs))"

definition effectiveBatchSize :: "nat \<Rightarrow> task list \<Rightarrow> nat" where
  "effectiveBatchSize dbs batch =
     (let batchCharCount = totalChars batch
      in if batchCharCount > maxCharsPerBatch
         then max 1 ((dbs * maxCharsPerBatch) div batchCharCount)
         else dbs)"

text \<open>
  The parameter \<open>translateOne\<close> gives, for a task's index and text, the outcome with which
  the promise returned by \<^verbatim>\<open>this.translate\<close> for that task settles.
\<close>

definition submit :: "(nat \<Rightarrow> jsstring \<Rightarrow> failure + jsstring) \<Rightarrow> task \<Rightarrow> failure + (nat \<times> jsstring)" where
  "submit translateOne task =
     (case translateOne (task_index task) (task_text task) of
        Inl e \<Rightarrow> Inl e
      | Inr translatedText \<Rightarrow> Inr (task_index task, translatedText))"

definition fillResults :: "(nat \<times> jsstring) list \<Rightarrow> jsstring option list \<Rightarrow> jsstring option list" where
  "fillResults batchResults results = foldl (\<lambda>rs (i, t). rs[i := Some t]) results batchResults"

text \<open>
  The second loop, \<^verbatim>\<open>for (let i = 0; i < tasks.length; i += dynamicBatchSize)\<close>. It
  terminates because the step is at least 10.
\<close>

function batchLoop ::
  "(nat \<Rightarrow> jsstring \<Rightarrow> failure + jsstring) \<Rightarrow> nat \<Rightarrow> task list \<Rightarrow> nat \<Rightarrow> jsstring option list
   \<Rightarrow> failure + jsstring option list" where
  "batchLoop translateOne n tasks i results =
     (if i < length tasks
      then (case awaitAll (map (submit translateOne)
                    (take (effectiveBatchSize (dynamicBatchSize n tasks)
                             (take (dynamicBatchSize n tasks) (drop i tasks)))
                       (take (dynamicBatchSize n tasks) (drop i tasks)))) of
              Inl e \<Rightarrow> Inl e
            | Inr batchResults \<Rightarrow>
                batchLoop translateOne n tasks (i + dynamicBatchSize n tasks)
                  (fillResults batchResults results))
      else Inr results)"
  by pat_completeness auto
termination
  by (relation "measure (\<lambda>(translateOne, n, tasks, i, results). length tasks - i)")
     (auto simp: dynamicBatchSize_def)

definition translateBatch ::
  "TranslationService \<Rightarrow> (nat \<Rightarrow> jsstring \<Rightarrow> failure + jsstring) \<Rightarrow> jsstring list \<Rightarrow> jsstring \<Rightarrow> jsstring
   \<Rightarrow> failure + jsstring option list" where
  "translateBatch s translateOne texts sourceLang targetLang =
     (if sourceLang \<noteq> ja \<or> targetLang \<noteq> zh then Inl UnsupportedPair
      else (let (c, results, tasks) =
                  scanCache (resultCache s) sourceLang targetLang texts 0
                    (replicate (length texts) None) []
            in batchLoop translateOne (length texts) tasks 0 results))"

text \<open>Ten uncached texts of 1001 characters each.\<close>

definition long_text :: jsstring where
  "long_text = replicate 1001 0x61"

definition translated :: jsstring where
  "translated = [0x4F60, 0x597D]"

definition ten_texts :: "jsstring list" where
  "ten_texts = [long_text, long_text, long_text, long_text, long_text,
                long_text, long_text, long_text, long_text, long_text]"

section \<open>The translation hook\<close>

text \<open>
  \<^verbatim>\<open>interface SubtitleLine\<close>; \<^verbatim>\<open>id\<close> and \<^verbatim>\<open>text\<close> are written \<open>line_id\<close> and
  \<open>line_text\<close>.
\<close>

record SubtitleLine =
  line_id :: nat
  startTime :: jsstring
  endTime :: jsstring
  line_text :: jsstring

text \<open>
  One invocation of \<^verbatim>\<open>translateSubtitles\<close>: its array \<^verbatim>\<open>translatedSubtitles\<close>
  (whose objects are those of the argument, so that the text read from
  \<^verbatim>\<open>subtitles\<close> is the text found here), its target language, the loop variable
  \<^verbatim>\<open>i\<close>, the calls of the inner helper suspended at \<^verbatim>\<open>await translatePromise\<close>
  (index and text), and whether the invocation has returned.
\<close>

record session =
  translatedSubtitles :: "SubtitleLine list"
  target :: jsstring
  loopIndex :: nat
  awaiting :: "(nat \<times> jsstring) list"
  returned :: bool

text \<open>
  The state of \<^verbatim>\<open>useTranslation\<close>: the two React states, the refs, the invocations
  in call order, the calls made to \<^verbatim>\<open>onTranslated\<close> (invocation and argument) and
  the indexes reported by \<^verbatim>\<open>console.error\<close> (invocation and index). The set
  \<^verbatim>\<open>activePromisesRef\<close> is only written and is left out, as are the statistics
  that are only logged.
\<close>

record hook =
  isTranslating :: bool
  translationProgress :: "nat \<times> nat"
  isCancelledRef :: bool
  translationCacheRef :: "(jsstring \<times> jsstring) list"
  progressRef :: "nat \<times> nat"
  sessions :: "session list"
  onTranslated :: "(nat \<times> SubtitleLine list) list"
  errorLog :: "(nat \<times> nat) list"

definition new_hook :: hook where
  "new_hook =
     \<lparr>isTranslating = False, translationProgress = (0, 0), isCancelledRef = False,
      translationCacheRef = [], progressRef = (0, 0), sessions = [], onTranslated = [],
      errorLog = []\<rparr>"

definition cancelTranslation :: "hook \<Rightarrow> hook" where
  "cancelTranslation h =
     h\<lparr>isCancelledRef := True, isTranslating := False, translationProgress := (0, 0),
       progressRef := (0, 0)\<rparr>"

text \<open>\<^verbatim>\<open>translatedSubtitles[index].text = v\<close> in invocation \<open>k\<close>.\<close>

definition setText :: "hook \<Rightarrow> nat \<Rightarrow> nat \<Rightarrow> jsstring \<Rightarrow> hook" where
  "setText h k i v =
     h\<lparr>sessions := (sessions h)
          [k := (sessions h ! k)
             \<lparr>translatedSubtitles := (translatedSubtitles (sessions h ! k))
                [i := (translatedSubtitles (sessions h ! k) ! i)\<lparr>line_text := v\<rparr>]\<rparr>]\<rparr>"

text \<open>
  \<^verbatim>\<open>const newCompleted = ++progressRef.current.completed\<close> and the
  \<^verbatim>\<open>setTranslationProgress\<close> that follows.
\<close>

definition countCompleted :: "hook \<Rightarrow> hook" where
  "countCompleted h =
     (let newCompleted = fst (progressRef h) + 1
      in h\<lparr>progressRef := (newCompleted, snd (progressRef h)),
           translationProgress := (newCompleted, snd (progressRef h))\<rparr>)"

definition hookCacheKey :: "jsstring \<Rightarrow> jsstring \<Rightarrow> jsstring" where
  "hookCacheKey t targetLang = t @ [0x5F] @ targetLang"

text \<open>
  The inner helper (\<^verbatim>\<open>translateBatch\<close> in the source, \<open>translateItem\<close> here) up to
  its return or its \<^verbatim>\<open>await\<close>: for the record at index \<open>i\<close> of invocation \<open>k\<close>.
\<close>

definition translateItem :: "hook \<Rightarrow> nat \<Rightarrow> nat \<Rightarrow> hook" where
  "translateItem h k i =
     (if isCancelledRef h then h
      else (let t = line_text (translatedSubtitles (sessions h ! k) ! i);
                cacheKey = hookCacheKey t (target (sessions h ! k))
            in case map_of (translationCacheRef h) cacheKey of
                 Some v \<Rightarrow> countCompleted (setText h k i v)
               | None \<Rightarrow>
                   h\<lparr>sessions := (sessions h)
                        [k := (sessions h ! k)
                           \<lparr>awaiting := awaiting (sessions h ! k) @ [(i, t)]\<rparr>]\<rparr>))"

definition maxConcurrentItems :: nat where
  "maxConcurrentItems = 5"

text \<open>One pass of the \<^verbatim>\<open>for\<close> loop, from \<^verbatim>\<open>subtitles.slice\<close> to the suspension at
  \<^verbatim>\<open>await Promise.all\<close>.\<close>

definition startWave :: "hook \<Rightarrow> nat \<Rightarrow> nat \<Rightarrow> hook" where
  "startWave h k i =
     foldl (\<lambda>h j. translateItem h k j)
       (h\<lparr>sessions := (sessions h)[k := (sessions h ! k)\<lparr>loopIndex := i\<rparr>]\<rparr>)
       [i ..< min (i + maxConcurrentItems) (length (translatedSubtitles (sessions h ! k)))]"

text \<open>The code after the loop.\<close>

definition finish :: "hook \<Rightarrow> nat \<Rightarrow> hook" where
  "finish h k =
     (let h' = h\<lparr>sessions := (sessions h)[k := (sessions h ! k)\<lparr>returned := True\<rparr>]\<rparr>
      in if \<not> isCancelledRef h
         then h'\<lparr>isTranslating := False,
                 onTranslated := onTranslated h @ [(k, translatedSubtitles (sessions h ! k))]\<rparr>
         else h')"

text \<open>
  The loop from a given pass on; its first argument lists the values \<^verbatim>\<open>i\<close> still to
  take. A pass whose calls have all returned is followed at once by the next one.
\<close>

fun runWaves :: "nat list \<Rightarrow> hook \<Rightarrow> nat \<Rightarrow> hook" where
  "runWaves [] h k = finish h k"
| "runWaves (i # waves) h k =
     (if isCancelledRef h then finish h k
      else (let h' = startWave h k i
            in if awaiting (sessions h' ! k) = [] then runWaves waves h' k else h'))"

definition waveStarts :: "nat \<Rightarrow> nat \<Rightarrow> nat list" where
  "waveStarts i n = map (\<lambda>m. i + maxConcurrentItems * m) [0 ..< (n - i + 4) div 5]"

definition translateSubtitles :: "hook \<Rightarrow> SubtitleLine list \<Rightarrow> jsstring \<Rightarrow> hook" where
  "translateSubtitles h subtitles targetLang =
     (if subtitles = [] then h
      else (let total = length subtitles;
                k = length (sessions h);
                h' = h\<lparr>isTranslating := True, isCancelledRef := False,
                       translationProgress := (0, total), progressRef := (0, total),
                       sessions := sessions h @
                         [\<lparr>translatedSubtitles = subtitles, target = targetLang, loopIndex = 0,
                           awaiting = [], returned = False\<rparr>]\<rparr>
            in runWaves (waveStarts 0 total) h' k))"

text \<open>
  The promise awaited for record \<open>i\<close> of invocation \<open>k\<close> settles: \<open>Some\<close> a
  translation, or \<open>None\<close> when \<^verbatim>\<open>translate\<close> rejects. When no call of the pass is
  suspended any more, the loop goes on.
\<close>

definition settled :: "hook \<Rightarrow> nat \<Rightarrow> nat \<Rightarrow> jsstring option \<Rightarrow> hook" where
  "settled h k i outcome =
     (if k < length (sessions h)
      then (case find (\<lambda>a. fst a = i) (awaiting (sessions h ! k)) of
              None \<Rightarrow> h
            | Some (_, t) \<Rightarrow>
                (let h1 = h\<lparr>sessions := (sessions h)
                            [k := (sessions h ! k)
                               \<lparr>awaiting := filter (\<lambda>a. fst a \<noteq> i) (awaiting (sessions h ! k))\<rparr>]\<rparr>;
                     h2 = (case outcome of
                             Some translatedText \<Rightarrow>
                               if isCancelledRef h1 then h1
                               else countCompleted
                                      ((setText h1 k i translatedText)
                                         \<lparr>translationCacheRef :=
                                            AList.update (hookCacheKey t (target (sessions h1 ! k)))
                                              translatedText (translationCacheRef h1)\<rparr>)
                           | None \<Rightarrow> (setText h1 k i t)\<lparr>errorLog := errorLog h1 @ [(k, i)]\<rparr>)
                 in if awaiting (sessions h2 ! k) = []
                    then runWaves (waveStarts (loopIndex (sessions h2 ! k) + maxConcurrentItems)
                                     (length (translatedSubtitles (sessions h2 ! k)))) h2 k
                    else h2))
      else h)"

text \<open>What can happen to the hook.\<close>

datatype hook_event =
  TranslateSubtitles "SubtitleLine list" jsstring
| CancelTranslation
| Settled nat nat "jsstring option"

fun hook_step :: "hook \<Rightarrow> hook_event \<Rightarrow> hook" where
  "hook_step h (TranslateSubtitles subtitles targetLang) = translateSubtitles h subtitles targetLang"
| "hook_step h CancelTranslation = cancelTranslation h"
| "hook_step h (Settled k i outcome) = settled h k i outcome"

definition hook_run :: "hook \<Rightarrow> hook_event list \<Rightarrow> hook" where
  "hook_run h events = foldl hook_step h events"

definition line :: "nat \<Rightarrow> jsstring \<Rightarrow> SubtitleLine" where
  "line n t = \<lparr>line_id = n, startTime = [], endTime = [], line_text = t\<rparr>"

fun is_settlement :: "hook_event \<Rightarrow> bool" where
  "is_settlement (Settled k i outcome) = True"
| "is_settlement _ = False"

fun is_start :: "hook_event \<Rightarrow> bool" where
  "is_start (TranslateSubtitles subtitles targetLang) = True"
| "is_start _ = False"

definition two_lines :: "SubtitleLine list" where
  "two_lines = [line 1 [0x61], line 2 [0x62]]"

definition restart_trace :: "hook_event list" where
  "restart_trace =
     [TranslateSubtitles [line 1 [0x61]] zh, CancelTranslation,
      TranslateSubtitles [line 2 [0x62]] zh, Settled 0 0 (Some [0x4F60])]"

subsection \<open>Invariant of a session that is not cancelled\<close>

text \<open>
  With \<open>d\<close> records dispatched: every dispatched record is completed, reported as
  failed or still awaited, and a record that is not yet dispatched, is awaited or
  failed has its original text.
\<close>

definition tracking :: "SubtitleLine list \<Rightarrow> nat \<Rightarrow> hook \<Rightarrow> bool" where
  "tracking subs d h \<longleftrightarrow>
     length (sessions h) = 1 \<and> \<not> isCancelledRef h \<and>
     length (translatedSubtitles (sessions h ! 0)) = length subs \<and>
     translationProgress h = progressRef h \<and> snd (progressRef h) = length subs \<and>
     d \<le> length subs \<and>
     distinct (map fst (awaiting (sessions h ! 0))) \<and>
     (\<forall>(i, t) \<in> set (awaiting (sessions h ! 0)). i < d \<and> t = line_text (subs ! i)) \<and>
     distinct (errorLog h) \<and>
     (\<forall>(k, i) \<in> set (errorLog h). k = 0 \<and> i < d \<and> i \<notin> fst ` set (awaiting (sessions h ! 0))) \<and>
     fst (progressRef h) + length (errorLog h) + length (awaiting (sessions h ! 0)) = d \<and>
     (\<forall>i < length subs.
        d \<le> i \<or> i \<in> fst ` set (awaiting (sessions h ! 0)) \<or> (0, i) \<in> set (errorLog h) \<longrightarrow>
        line_text (translatedSubtitles (sessions h ! 0) ! i) = line_text (subs ! i))"

definition dispatched :: "hook \<Rightarrow> nat" where
  "dispatched h =
     min (length (translatedSubtitles (sessions h ! 0)))
         (loopIndex (sessions h ! 0) + maxConcurrentItems)"

definition steady :: "SubtitleLine list \<Rightarrow> hook \<Rightarrow> bool" where
  "steady subs h \<longleftrightarrow>
     tracking subs (dispatched h) h \<and>
     (if returned (sessions h ! 0)
      then dispatched h = length subs \<and> awaiting (sessions h ! 0) = [] \<and>
           onTranslated h = [(0, translatedSubtitles (sessions h ! 0))]
      else awaiting (sessions h ! 0) \<noteq> [] \<and> onTranslated h = [])"

section \<open>Properties of the LRU cache\<close>





lemma getKey_nonempty [simp]: "getKey a b t \<noteq> []" "[] \<noteq> getKey a b t"
  by (simp_all add: getKey_def)





















lemma set_update_subset: "set (AList.update k v al) \<subseteq> insert (k, v) (set al)"
  by (induction al) auto


















section \<open>Properties of the translation service\<close>

lemma issueRequest_frame [simp]:
  "resultCache (issueRequest s options) = resultCache s"
  "promiseCache (issueRequest s options) = promiseCache s"
  "promises (issueRequest s options) = promises s"
  "nextPromise (issueRequest s options) = nextPromise s"
  "suspended (issueRequest s options) = suspended s"
  "translationQueue (issueRequest s options) = translationQueue s"
  "executing (issueRequest s options) = executing s"
  "activeTranslations (issueRequest s options) = activeTranslations s"
  "maxConcurrent (issueRequest s options) = maxConcurrent s"
  by (simp_all add: issueRequest_def)

lemma executeTranslationTask_frame [simp]:
  "resultCache (executeTranslationTask s task) = resultCache s"
  "promiseCache (executeTranslationTask s task) = promiseCache s"
  "promises (executeTranslationTask s task) = promises s"
  "nextPromise (executeTranslationTask s task) = nextPromise s"
  "suspended (executeTranslationTask s task) = suspended s"
  "translationQueue (executeTranslationTask s task) = translationQueue s"
  "executing (executeTranslationTask s task) = executing s @ [(snd task, fst task, 0)]"
  "activeTranslations (executeTranslationTask s task) = activeTranslations s"
  "maxConcurrent (executeTranslationTask s task) = maxConcurrent s"
  by (simp_all add: executeTranslationTask_def)

lemma dispatchLoop_frame [simp]:
  "resultCache (dispatchLoop q s) = resultCache s"
  "promiseCache (dispatchLoop q s) = promiseCache s"
  "promises (dispatchLoop q s) = promises s"
  "nextPromise (dispatchLoop q s) = nextPromise s"
  "suspended (dispatchLoop q s) = suspended s"
  by (induction q arbitrary: s; simp)+

lemma dispatchLoop_requests:
  "translationQueue s = q \<Longrightarrow> set (requests (dispatchLoop q s)) = set (requests s)"
proof (induction q arbitrary: s)
  case Nil
  then show ?case by simp
next
  case (Cons task q)
  show ?case
  proof (cases "activeTranslations s < maxConcurrent s")
    case True
    let ?s = "executeTranslationTask
                (s\<lparr>translationQueue := q, activeTranslations := activeTranslations s + 1\<rparr>) task"
    have "translationQueue ?s = q" by simp
    then have "set (requests (dispatchLoop q ?s)) = set (requests ?s)" by (rule Cons.IH)
    also have "\<dots> = set (requests s)"
      using Cons.prems by (auto simp: requests_def split: prod.splits)
    finally show ?thesis using True by simp
  next
    case False
    then show ?thesis by simp
  qed
qed

lemma processQueueIterative_frame [simp]:
  "resultCache (processQueueIterative s) = resultCache s"
  "promiseCache (processQueueIterative s) = promiseCache s"
  "promises (processQueueIterative s) = promises s"
  "nextPromise (processQueueIterative s) = nextPromise s"
  "suspended (processQueueIterative s) = suspended s"
  by (simp_all add: processQueueIterative_def Let_def)

lemma processQueueIterative_requests [simp]:
  "set (requests (processQueueIterative s)) = set (requests s)"
  using dispatchLoop_requests [of s "translationQueue s"]
  by (simp add: processQueueIterative_def Let_def requests_def)

lemma startProcessingQueue_frame [simp]:
  "resultCache (startProcessingQueue s) = resultCache s"
  "promiseCache (startProcessingQueue s) = promiseCache s"
  "promises (startProcessingQueue s) = promises s"
  "nextPromise (startProcessingQueue s) = nextPromise s"
  "suspended (startProcessingQueue s) = suspended s"
  by (simp_all add: startProcessingQueue_def)

lemma startProcessingQueue_requests [simp]:
  "set (requests (startProcessingQueue s)) = set (requests s)"
proof -
  have "set (requests (s\<lparr>isProcessing := True\<rparr>)) = set (requests s)"
    by (simp add: requests_def)
  then show ?thesis by (simp add: startProcessingQueue_def)
qed

lemma lru_get_cache [simp]: "cache (snd (lru_get c a b t)) = cache c"
  by (simp add: lru_get_def Let_def)

lemma lru_get_value [simp]: "fst (lru_get c a b t) = map_of (cache c) (getKey a b t)"
  by (simp add: lru_get_def Let_def)

lemma lru_set_same: "map_of (cache (lru_set c a b t v)) (getKey a b t) = Some v"
  by (simp add: lru_set_def Let_def AList.update_conv')

lemma lru_set_other:
  "k \<noteq> getKey a b t \<Longrightarrow>
   map_of (cache (lru_set c a b t v)) k = None \<or>
   map_of (cache (lru_set c a b t v)) k = map_of (cache c) k"
  by (simp add: lru_set_def Let_def AList.update_conv' AList.delete_conv')

lemma getKey_inject: "getKey a b t = getKey a b t' \<longleftrightarrow> t = t'"
  by (simp add: getKey_def)

lemma cacheKeyOf_inject:
  "supported x \<Longrightarrow> supported y \<Longrightarrow> cacheKeyOf x = cacheKeyOf y \<Longrightarrow> x = y"
  by (cases x, cases y) (simp add: supported_def cacheKeyOf_def getKey_inject)

lemma translateWithGoogleAPI_nonempty:
  "translateWithGoogleAPI options resp = Inr t \<Longrightarrow> trim (text' options) \<noteq> [] \<Longrightarrow> t \<noteq> []"
  by (cases resp) (auto simp: translateWithGoogleAPI_def trim_def split: if_splits)

lemma trim_blank: "trim t = [] \<longleftrightarrow> (\<forall>c \<in> set t. isWhiteSpace c)"
proof
  assume "trim t = []"
  then have "dropWhile isWhiteSpace (rev (dropWhile isWhiteSpace t)) = []"
    by (simp add: trim_def)
  then have a: "\<forall>c \<in> set (dropWhile isWhiteSpace t). isWhiteSpace c"
    by (simp only: dropWhile_eq_Nil_conv set_rev)
  have "dropWhile isWhiteSpace t = []"
  proof (rule ccontr)
    assume n: "dropWhile isWhiteSpace t \<noteq> []"
    then have "\<not> isWhiteSpace (hd (dropWhile isWhiteSpace t))" by (rule hd_dropWhile)
    moreover from n have "hd (dropWhile isWhiteSpace t) \<in> set (dropWhile isWhiteSpace t)"
      by (rule hd_in_set)
    ultimately show False using a by blast
  qed
  then show "\<forall>c \<in> set t. isWhiteSpace c" by (simp only: dropWhile_eq_Nil_conv)
next
  assume "\<forall>c \<in> set t. isWhiteSpace c"
  then have d: "dropWhile isWhiteSpace t = []" by (simp only: dropWhile_eq_Nil_conv)
  show "trim t = []" unfolding trim_def d by simp
qed

lemma translate_unsupported:
  "\<not> supported options \<Longrightarrow> translate s options = (Throws UnsupportedPair, s)"
  by (auto simp: translate_def supported_def)

lemma translate_blank:
  "supported options \<Longrightarrow> trim (text' options) = [] \<Longrightarrow>
   translate s options = (Returns (text' options), s)"
  by (simp add: translate_def supported_def)

lemma translate_hit:
  "supported options \<Longrightarrow> trim (text' options) \<noteq> [] \<Longrightarrow>
   map_of (cache (resultCache s)) (cacheKeyOf options) = Some v \<Longrightarrow> v \<noteq> [] \<Longrightarrow>
   translate s options =
     (Returns v, s\<lparr>resultCache := snd (lru_get (resultCache s) ja zh (text' options))\<rparr>)"
  by (simp add: translate_def supported_def cacheKeyOf_def lru_get_def Let_def)

lemma translate_attached:
  "supported options \<Longrightarrow> trim (text' options) \<noteq> [] \<Longrightarrow>
   \<not> truthy (map_of (cache (resultCache s)) (cacheKeyOf options)) \<Longrightarrow>
   map_of (promiseCache s) (cacheKeyOf options) = Some p \<Longrightarrow>
   translate s options = (Attached p, s)"
  by (simp add: translate_def supported_def cacheKeyOf_def lru_get_def Let_def)

lemma translate_created:
  "supported options \<Longrightarrow> trim (text' options) \<noteq> [] \<Longrightarrow>
   \<not> truthy (map_of (cache (resultCache s)) (cacheKeyOf options)) \<Longrightarrow>
   map_of (promiseCache s) (cacheKeyOf options) = None \<Longrightarrow>
   translate s options =
     (Created (nextPromise s),
      (startProcessingQueue
         (s\<lparr>nextPromise := nextPromise s + 1,
            translationQueue := translationQueue s @ [(options, nextPromise s)],
            promiseCache := AList.update (cacheKeyOf options) (nextPromise s) (promiseCache s)\<rparr>))
        \<lparr>suspended := suspended s @ [(nextPromise s, options)]\<rparr>)"
  by (simp add: translate_def supported_def cacheKeyOf_def lru_get_def Let_def)

lemma requests_suspended_update [simp]: "requests (s\<lparr>suspended := w\<rparr>) = requests s"
  by (simp add: requests_def)

lemma requests_resultCache_update [simp]: "requests (s\<lparr>resultCache := c\<rparr>) = requests s"
  by (simp add: requests_def)

lemma consistent_new: "consistent new_TranslationService"
  by (simp add: consistent_def new_TranslationService_def requests_def)

lemma consistent_resultCache_get:
  "consistent s \<Longrightarrow> consistent (s\<lparr>resultCache := snd (lru_get (resultCache s) a b t)\<rparr>)"
  by (simp add: consistent_def del: map_of_eq_Some_iff)

lemma consistent_created:
  assumes c: "consistent s" and sup: "supported options" and nb: "trim (text' options) \<noteq> []"
    and miss: "\<not> truthy (map_of (cache (resultCache s)) (cacheKeyOf options))"
    and fresh: "map_of (promiseCache s) (cacheKeyOf options) = None"
  shows "consistent
     ((startProcessingQueue
         (s\<lparr>nextPromise := nextPromise s + 1,
            translationQueue := translationQueue s @ [(options, nextPromise s)],
            promiseCache := AList.update (cacheKeyOf options) (nextPromise s) (promiseCache s)\<rparr>))
        \<lparr>suspended := suspended s @ [(nextPromise s, options)]\<rparr>)"
    (is "consistent ?s'")
proof -
  let ?k = "cacheKeyOf options" and ?p = "nextPromise s"
  let ?s0 = "s\<lparr>nextPromise := nextPromise s + 1,
            translationQueue := translationQueue s @ [(options, nextPromise s)],
            promiseCache := AList.update (cacheKeyOf options) (nextPromise s) (promiseCache s)\<rparr>"
  from c have dpc: "distinct (map fst (promiseCache s))"
    and dsu: "distinct (map fst (suspended s))"
    and su: "\<And>p x. (p, x) \<in> set (suspended s) \<Longrightarrow>
        p < nextPromise s \<and> supported x \<and> trim (text' x) \<noteq> [] \<and>
        map_of (promiseCache s) (cacheKeyOf x) = Some p \<and>
        \<not> truthy (map_of (cache (resultCache s)) (cacheKeyOf x))"
    and pc: "\<And>k p. (k, p) \<in> set (promiseCache s) \<Longrightarrow>
        \<exists>x. (p, x) \<in> set (suspended s) \<and> cacheKeyOf x = k"
    and rq: "\<And>p x. (p, x) \<in> set (requests s) \<Longrightarrow> supported x \<and> trim (text' x) \<noteq> []"
    and pr: "\<And>p t. promises s p = Fulfilled t \<Longrightarrow> t \<noteq> []"
    by (auto simp: consistent_def)
  have f1: "promiseCache ?s' = AList.update ?k ?p (promiseCache s)" by simp
  have f2: "suspended ?s' = suspended s @ [(?p, options)]" by simp
  have f3: "nextPromise ?s' = ?p + 1" by simp
  have f4: "resultCache ?s' = resultCache s" by simp
  have f5: "promises ?s' = promises s" by simp
  have "set (requests ?s0) = insert (?p, options) (set (requests s))"
    by (auto simp: requests_def)
  then have f6: "set (requests ?s') = insert (?p, options) (set (requests s))" by simp
  have a: "distinct (map fst (promiseCache ?s'))"
    unfolding f1 using dpc by (simp add: AList.distinct_update)
  have "?p \<notin> fst ` set (suspended s)"
    using su by fastforce
  then have b: "distinct (map fst (suspended ?s'))"
    unfolding f2 using dsu by simp
  have cc: "p < nextPromise ?s' \<and> supported x \<and> trim (text' x) \<noteq> [] \<and>
        map_of (promiseCache ?s') (cacheKeyOf x) = Some p \<and>
        \<not> truthy (map_of (cache (resultCache ?s')) (cacheKeyOf x))"
    if "(p, x) \<in> set (suspended ?s')" for p x
  proof (cases "(p, x) \<in> set (suspended s)")
    case True
    note o = su [OF True]
    with fresh have "cacheKeyOf x \<noteq> ?k" by auto
    with o show ?thesis unfolding f1 f3 f4 by (simp add: AList.update_conv')
  next
    case False
    with that have "p = ?p" "x = options" unfolding f2 by auto
    with sup nb miss show ?thesis unfolding f1 f3 f4 by (simp add: AList.update_conv')
  qed
  have d: "\<exists>x. (p, x) \<in> set (suspended ?s') \<and> cacheKeyOf x = k"
    if "(k, p) \<in> set (promiseCache ?s')" for k p
  proof -
    from that have "(k, p) = (?k, ?p) \<or> (k, p) \<in> set (promiseCache s)"
      unfolding f1 using set_update_subset [of ?k ?p "promiseCache s"] by auto
    then show ?thesis
    proof
      assume "(k, p) = (?k, ?p)"
      then show ?thesis unfolding f2 by auto
    next
      assume "(k, p) \<in> set (promiseCache s)"
      from pc [OF this] show ?thesis unfolding f2 by auto
    qed
  qed
  have e: "supported x \<and> trim (text' x) \<noteq> []" if "(p, x) \<in> set (requests ?s')" for p x
    using that rq sup nb unfolding f6 by auto
  have f: "t \<noteq> []" if "promises ?s' p = Fulfilled t" for p t
    using that pr unfolding f5 by blast
  from a b cc d e f show ?thesis
    unfolding consistent_def by (intro conjI ballI allI impI; clarify?) blast+
qed

lemma consistent_translate: "consistent s \<Longrightarrow> consistent (snd (translate s options))"
proof -
  assume c: "consistent s"
  let ?v = "map_of (cache (resultCache s)) (cacheKeyOf options)"
  consider (u) "\<not> supported options"
    | (b) "supported options" "trim (text' options) = []"
    | (h) v where "supported options" "trim (text' options) \<noteq> []" "?v = Some v" "v \<noteq> []"
    | (a) p where "supported options" "trim (text' options) \<noteq> []" "\<not> truthy ?v"
        "map_of (promiseCache s) (cacheKeyOf options) = Some p"
    | (n) "supported options" "trim (text' options) \<noteq> []" "\<not> truthy ?v"
        "map_of (promiseCache s) (cacheKeyOf options) = None"
    by (cases ?v; cases "map_of (promiseCache s) (cacheKeyOf options)"; fastforce)
  then show ?thesis
  proof cases
    case u
    then show ?thesis using c by (simp add: translate_unsupported)
  next
    case b
    then show ?thesis using c by (simp add: translate_blank)
  next
    case h
    then show ?thesis using c by (simp add: translate_hit consistent_resultCache_get)
  next
    case a
    then show ?thesis using c by (simp add: translate_attached)
  next
    case n
    from consistent_created [OF c n] show ?thesis by (simp add: translate_created [OF n])
  qed
qed

lemma find_SomeD: "find P xs = Some x \<Longrightarrow> x \<in> set xs \<and> P x"
  by (induction xs) (auto split: if_splits)

lemma requests_mono:
  assumes "set (translationQueue s') \<subseteq> set (translationQueue s)"
    and "\<And>p x a. (p, x, a) \<in> set (executing s') \<Longrightarrow> \<exists>a'. (p, x, a') \<in> set (executing s)"
  shows "set (requests s') \<subseteq> set (requests s)"
proof
  fix r assume "r \<in> set (requests s')"
  then consider (q) x p where "r = (p, x)" "(x, p) \<in> set (translationQueue s')"
    | (e) p x a where "r = (p, x)" "(p, x, a) \<in> set (executing s')"
    by (auto simp: requests_def)
  then show "r \<in> set (requests s)"
  proof cases
    case q
    with assms(1) have "(x, p) \<in> set (translationQueue s)" by blast
    then show ?thesis unfolding requests_def q(1) by force
  next
    case e
    from assms(2) [OF e(2)] obtain a' where "(p, x, a') \<in> set (executing s)" ..
    then show ?thesis unfolding requests_def e(1) by force
  qed
qed

lemma requests_settle:
  "set (requests (settle s p outcome)) \<subseteq> set (requests s)"
proof -
  have "set (requests (s\<lparr>promises := (promises s)(p := outcome),
          executing := filter (\<lambda>e. fst e \<noteq> p) (executing s),
          activeTranslations := activeTranslations s - 1\<rparr>)) \<subseteq> set (requests s)"
    by (rule requests_mono) auto
  then show ?thesis by (simp add: settle_def)
qed

lemma settle_frame [simp]:
  "resultCache (settle s p outcome) = resultCache s"
  "promiseCache (settle s p outcome) = promiseCache s"
  "promises (settle s p outcome) = (promises s)(p := outcome)"
  "nextPromise (settle s p outcome) = nextPromise s"
  "suspended (settle s p outcome) = suspended s"
  by (simp_all add: settle_def)

lemma consistent_settle:
  assumes "consistent s" and "\<forall>t. outcome = Fulfilled t \<longrightarrow> t \<noteq> []"
  shows "consistent (settle s p outcome)"
proof -
  from assms(1) have rq: "\<forall>(p, x) \<in> set (requests s). supported x \<and> trim (text' x) \<noteq> []"
    by (simp add: consistent_def)
  then have "\<forall>(q, x) \<in> set (requests (settle s p outcome)). supported x \<and> trim (text' x) \<noteq> []"
    using requests_settle [of s p outcome] by blast
  moreover have "\<forall>q t. promises (settle s p outcome) q = Fulfilled t \<longrightarrow> t \<noteq> []"
    using assms by (auto simp: consistent_def)
  ultimately show ?thesis using assms(1)
    by (simp add: consistent_def del: map_of_eq_Some_iff)
qed

lemma consistent_retry:
  assumes "consistent s" and "find (\<lambda>e. fst e = p) (executing s) = Some (q, options, attempts)"
  shows "consistent (issueRequest
           (s\<lparr>executing := map (\<lambda>x. if fst x = p then (p, options, attempts + 1) else x)
                               (executing s)\<rparr>) options)"
    (is "consistent ?s'")
proof -
  from find_SomeD [OF assms(2)] have "(q, options, attempts) \<in> set (executing s)" "q = p"
    by auto
  then have "set (requests ?s') \<subseteq> set (requests s)"
    by (intro requests_mono) (auto split: if_splits)
  moreover from assms(1) have "\<forall>(p, x) \<in> set (requests s). supported x \<and> trim (text' x) \<noteq> []"
    by (simp add: consistent_def)
  ultimately have "\<forall>(p, x) \<in> set (requests ?s'). supported x \<and> trim (text' x) \<noteq> []"
    by blast
  then show ?thesis using assms(1)
    by (simp add: consistent_def del: map_of_eq_Some_iff)
qed

lemma consistent_respond: "consistent s \<Longrightarrow> consistent (respond s p resp)"
proof -
  assume c: "consistent s"
  show ?thesis
  proof (cases "find (\<lambda>e. fst e = p) (executing s)")
    case None
    then show ?thesis using c by (simp add: respond_def)
  next
    case (Some e)
    obtain q options attempts where e: "e = (q, options, attempts)" by (cases e)
    from Some e have "(q, options, attempts) \<in> set (executing s)"
      by (auto dest: find_SomeD)
    then have "(q, options) \<in> set (requests s)" by (force simp: requests_def)
    with c have nb: "trim (text' options) \<noteq> []" by (auto simp: consistent_def)
    show ?thesis
    proof (cases "translateWithGoogleAPI options resp")
      case (Inr t)
      have "t \<noteq> []" by (rule translateWithGoogleAPI_nonempty [OF Inr nb])
      then show ?thesis using c Some e Inr by (simp add: respond_def consistent_settle)
    next
      case (Inl err)
      show ?thesis
      proof (cases "attempts + 1 \<le> maxAttempts")
        case True
        then show ?thesis using c Some e Inl consistent_retry [of s p q options attempts]
          by (simp add: respond_def)
      next
        case False
        then show ?thesis using c Some e Inl by (simp add: respond_def consistent_settle)
      qed
    qed
  qed
qed

lemma requests_other_update [simp]:
  "requests (s\<lparr>promiseCache := pc\<rparr>) = requests s"
  "requests (s\<lparr>maxConcurrent := m\<rparr>) = requests s"
  by (simp_all add: requests_def)

lemma consistent_resumed:
  assumes c: "consistent s" and w: "(p, options) \<in> set (suspended s)"
    and rc: "rc = resultCache s \<or>
             (\<exists>t. rc = lru_set (resultCache s) (sourceLanguage options) (targetLanguage options)
                          (text' options) t)"
  shows "consistent (s\<lparr>resultCache := rc,
                        promiseCache := AList.delete (cacheKeyOf options) (promiseCache s),
                        suspended := filter (\<lambda>w. fst w \<noteq> p) (suspended s)\<rparr>)"
    (is "consistent ?s'")
proof -
  let ?k = "cacheKeyOf options"
  from c have dpc: "distinct (map fst (promiseCache s))"
    and dsu: "distinct (map fst (suspended s))"
    and su: "\<And>p x. (p, x) \<in> set (suspended s) \<Longrightarrow>
        p < nextPromise s \<and> supported x \<and> trim (text' x) \<noteq> [] \<and>
        map_of (promiseCache s) (cacheKeyOf x) = Some p \<and>
        \<not> truthy (map_of (cache (resultCache s)) (cacheKeyOf x))"
    and pc: "\<And>k p. (k, p) \<in> set (promiseCache s) \<Longrightarrow>
        \<exists>x. (p, x) \<in> set (suspended s) \<and> cacheKeyOf x = k"
    and rq: "\<And>p x. (p, x) \<in> set (requests s) \<Longrightarrow> supported x \<and> trim (text' x) \<noteq> []"
    and pr: "\<And>p t. promises s p = Fulfilled t \<Longrightarrow> t \<noteq> []"
    by (auto simp: consistent_def)
  have uniq: "x = options" if "(p, x) \<in> set (suspended s)" for x
    using dsu w that by (meson eq_key_imp_eq_value)
  have other: "cacheKeyOf x \<noteq> ?k" if "(q, x) \<in> set (suspended s)" "q \<noteq> p" for q x
    using su [OF that(1)] su [OF w] that(2) by auto
  have a: "distinct (map fst (promiseCache ?s'))"
    using dpc by (simp add: AList.distinct_delete)
  have b: "distinct (map fst (suspended ?s'))"
    using dsu by (simp add: distinct_map_filter)
  have cc: "q < nextPromise ?s' \<and> supported x \<and> trim (text' x) \<noteq> [] \<and>
        map_of (promiseCache ?s') (cacheKeyOf x) = Some q \<and>
        \<not> truthy (map_of (cache (resultCache ?s')) (cacheKeyOf x))"
    if "(q, x) \<in> set (suspended ?s')" for q x
  proof -
    from that have m: "(q, x) \<in> set (suspended s)" and ne: "q \<noteq> p" by auto
    note o = su [OF m]
    from other [OF m ne] have k: "cacheKeyOf x \<noteq> ?k" .
    have "\<not> truthy (map_of (cache rc) (cacheKeyOf x))"
      using rc
    proof
      assume "rc = resultCache s"
      with o show ?thesis by simp
    next
      assume "\<exists>t. rc = lru_set (resultCache s) (sourceLanguage options) (targetLanguage options)
                          (text' options) t"
      then obtain t where t: "rc = lru_set (resultCache s) (sourceLanguage options)
          (targetLanguage options) (text' options) t" ..
      from k have "cacheKeyOf x \<noteq> getKey (sourceLanguage options) (targetLanguage options)
          (text' options)" by (simp add: cacheKeyOf_def)
      from lru_set_other [OF this, of "resultCache s" t] o show ?thesis
        unfolding t by auto
    qed
    with o k show ?thesis by (simp add: AList.delete_conv')
  qed
  have d: "\<exists>x. (q, x) \<in> set (suspended ?s') \<and> cacheKeyOf x = k"
    if "(k, q) \<in> set (promiseCache ?s')" for k q
  proof -
    from that have "(k, q) \<in> set (AList.delete ?k (promiseCache s))" by simp
    then have m: "(k, q) \<in> set (promiseCache s)" and kk: "k \<noteq> ?k"
      by (auto simp: AList.delete_eq)
    from pc [OF m] obtain x where x: "(q, x) \<in> set (suspended s)" "cacheKeyOf x = k" by blast
    have "q \<noteq> p"
    proof
      assume "q = p"
      with x(1) have "x = options" by (simp add: uniq)
      with x(2) kk show False by simp
    qed
    with x show ?thesis by auto
  qed
  have e: "supported x \<and> trim (text' x) \<noteq> []" if "(q, x) \<in> set (requests ?s')" for q x
    using that rq by simp
  have f: "t \<noteq> []" if "promises ?s' q = Fulfilled t" for q t
    using that pr by simp
  from a b cc d e f show ?thesis
    unfolding consistent_def by (intro conjI ballI allI impI; clarify?) blast+
qed

lemma consistent_resume: "consistent s \<Longrightarrow> consistent (resume s p)"
proof -
  assume c: "consistent s"
  show ?thesis
  proof (cases "find (\<lambda>w. fst w = p) (suspended s)")
    case None
    then show ?thesis using c by (simp add: resume_def)
  next
    case (Some w)
    obtain q options where w: "w = (q, options)" by (cases w)
    from find_SomeD [OF Some] w have m: "(p, options) \<in> set (suspended s)" by auto
    show ?thesis
    proof (cases "promises s p")
      case Pending
      then show ?thesis using c Some w by (simp add: resume_def)
    next
      case (Fulfilled t)
      have "consistent (s\<lparr>resultCache := lru_set (resultCache s) (sourceLanguage options)
                                      (targetLanguage options) (text' options) t,
                        promiseCache := AList.delete (cacheKeyOf options) (promiseCache s),
                        suspended := filter (\<lambda>w. fst w \<noteq> p) (suspended s)\<rparr>)"
        using c m by (rule consistent_resumed) blast
      then show ?thesis using Some w Fulfilled
        by (simp add: resume_def cacheKeyOf_def Let_def)
    next
      case (Rejected err)
      have "consistent (s\<lparr>resultCache := resultCache s,
                        promiseCache := AList.delete (cacheKeyOf options) (promiseCache s),
                        suspended := filter (\<lambda>w. fst w \<noteq> p) (suspended s)\<rparr>)"
        using c m by (rule consistent_resumed) blast
      then show ?thesis using Some w Rejected
        by (simp add: resume_def cacheKeyOf_def Let_def)
    qed
  qed
qed

lemma consistent_clearCache: "consistent s \<Longrightarrow> consistent (clearCache s)"
  unfolding consistent_def clearCache_def lru_clear_def
  by (fastforce simp del: map_of_eq_Some_iff)

lemma consistent_startProcessingQueue:
  "consistent s \<Longrightarrow> consistent (startProcessingQueue s)"
  by (simp add: consistent_def del: map_of_eq_Some_iff)

lemma consistent_setMaxConcurrent: "consistent s \<Longrightarrow> consistent (setMaxConcurrent s n)"
proof -
  assume "consistent s"
  then have "consistent (s\<lparr>maxConcurrent := max 1 (min 50 n)\<rparr>)"
    by (simp add: consistent_def del: map_of_eq_Some_iff)
  then show ?thesis
    unfolding setMaxConcurrent_def by (rule consistent_startProcessingQueue)
qed

lemma consistent_step: "consistent s \<Longrightarrow> consistent (step s e)"
  by (cases e)
     (simp_all add: consistent_translate consistent_respond consistent_resume
        consistent_resultCache_get consistent_clearCache consistent_setMaxConcurrent)

lemma run_snoc: "run (es @ [e]) = step (run es) e"
  by (simp add: run_def)

lemma consistent_run: "consistent (run es)"
  by (induction es rule: rev_induct) (simp_all add: run_def consistent_new consistent_step)

lemma find_unique:
  "distinct (map fst xs) \<Longrightarrow> (p, x) \<in> set xs \<Longrightarrow> find (\<lambda>w. fst w = p) xs = Some (p, x)"
  by (induction xs) (auto simp: image_iff)

lemma resume_settled:
  assumes c: "consistent s" and w: "(p, options) \<in> set (suspended s)"
    and st: "promises s p \<noteq> Pending"
  shows "resume s p =
     s\<lparr>resultCache := (case promises s p of
                          Fulfilled t \<Rightarrow> lru_set (resultCache s) (sourceLanguage options)
                                           (targetLanguage options) (text' options) t
                        | _ \<Rightarrow> resultCache s),
       promiseCache := AList.delete (cacheKeyOf options) (promiseCache s),
       suspended := filter (\<lambda>w. fst w \<noteq> p) (suspended s)\<rparr>"
proof -
  from c have "distinct (map fst (suspended s))" by (simp add: consistent_def)
  from find_unique [OF this w] st show ?thesis
    by (cases "promises s p") (simp_all add: resume_def cacheKeyOf_def Let_def)
qed

text \<open>
  Claim C7. For the supported language pair and a text made of white space only
  (the empty text included), \<open>translate\<close> returns the text itself and leaves the
  whole state of the service as it was: nothing is written to the result cache,
  nothing is queued, no promise is created and no request is sent.
\<close>

theorem translate_whitespace:
  assumes "sourceLanguage options = ja" and "targetLanguage options = zh"
    and "\<forall>c \<in> set (text' options). isWhiteSpace c"
  shows "translate s options = (Returns (text' options), s)"
  using assms by (simp add: translate_blank supported_def trim_blank)

text \<open>A space, an ideographic space and a line feed; and the empty text.\<close>

theorem translate_whitespace_witness:
  "sourceLanguage (opts [0x0020, 0x3000, 0x000A]) = ja \<and>
   targetLanguage (opts [0x0020, 0x3000, 0x000A]) = zh \<and>
   list_all isWhiteSpace (text' (opts [0x0020, 0x3000, 0x000A])) \<and>
   translate new_TranslationService (opts [0x0020, 0x3000, 0x000A]) =
     (Returns [0x0020, 0x3000, 0x000A], new_TranslationService) \<and>
   translate new_TranslationService (opts []) = (Returns [], new_TranslationService)"
proof -
  have a: "sourceLanguage (opts t) = ja" "targetLanguage (opts t) = zh" "text' (opts t) = t" for t
    by (simp_all add: opts_def)
  have b: "\<forall>c \<in> set (text' (opts [0x0020, 0x3000, 0x000A])). isWhiteSpace c"
    by (simp add: opts_def isWhiteSpace_def)
  have c: "\<forall>c \<in> set (text' (opts [])). isWhiteSpace c"
    by (simp add: opts_def)
  from translate_whitespace [OF a(1) a(2) b, of new_TranslationService]
    translate_whitespace [OF a(1) a(2) c, of new_TranslationService] a b
  show ?thesis by (simp add: list_all_iff)
qed

lemma opts_simps [simp]:
  "sourceLanguage (opts t) = ja" "targetLanguage (opts t) = zh" "text' (opts t) = t"
  "supported (opts t)" "cacheKeyOf (opts t) = getKey ja zh t"
  by (simp_all add: opts_def supported_def cacheKeyOf_def)

lemma created_request:
  assumes "supported options" "trim (text' options) \<noteq> []"
    "\<not> truthy (map_of (cache (resultCache s)) (cacheKeyOf options))"
    "map_of (promiseCache s) (cacheKeyOf options) = None"
  shows "fst (translate s options) = Created (nextPromise s)"
    and "map_of (promiseCache (snd (translate s options))) (cacheKeyOf options) = Some (nextPromise s)"
    and "(nextPromise s, options) \<in> set (requests (snd (translate s options)))"
    and "(nextPromise s, options) \<in> set (suspended (snd (translate s options)))"
    and "resultCache (snd (translate s options)) = resultCache s"
proof -
  note t = translate_created [OF assms]
  show "fst (translate s options) = Created (nextPromise s)" by (simp add: t)
  show "map_of (promiseCache (snd (translate s options))) (cacheKeyOf options) = Some (nextPromise s)"
    by (simp add: t AList.update_conv')
  have "(nextPromise s, options) \<in> set (requests
         (s\<lparr>nextPromise := nextPromise s + 1,
            translationQueue := translationQueue s @ [(options, nextPromise s)],
            promiseCache := AList.update (cacheKeyOf options) (nextPromise s) (promiseCache s)\<rparr>))"
    by (simp add: requests_def)
  then show "(nextPromise s, options) \<in> set (requests (snd (translate s options)))"
    by (simp add: t)
  show "(nextPromise s, options) \<in> set (suspended (snd (translate s options)))"
    by (simp add: t)
  show "resultCache (snd (translate s options)) = resultCache s" by (simp add: t)
qed

text \<open>
  Claim C10. If the result cache holds the empty string for a key, \<open>lru_get\<close> returns
  it and leaves the cache, recency order included, unchanged; and \<open>translate\<close> of a
  non-blank text with that key does not return the cached value but goes on as for
  a miss: with no request pending for the key it creates a promise, registers it
  in \<open>promiseCache\<close> and queues or starts a new request (with one pending it returns
  that one).
\<close>

theorem empty_cached_value_is_miss:
  assumes "map_of (cache (resultCache s)) (getKey ja zh t) = Some []"
  shows "lru_get (resultCache s) ja zh t = (Some [], resultCache s) \<and>
    (trim t \<noteq> [] \<longrightarrow>
       (case map_of (promiseCache s) (getKey ja zh t) of
          Some p \<Rightarrow> translate s (opts t) = (Attached p, s)
        | None \<Rightarrow>
            fst (translate s (opts t)) = Created (nextPromise s) \<and>
            map_of (promiseCache (snd (translate s (opts t)))) (getKey ja zh t) =
              Some (nextPromise s) \<and>
            (nextPromise s, opts t) \<in> set (requests (snd (translate s (opts t)))) \<and>
            resultCache (snd (translate s (opts t))) = resultCache s))"
proof -
  have g: "lru_get (resultCache s) ja zh t = (Some [], resultCache s)"
    using assms by (simp add: lru_get_def Let_def)
  have m: "\<not> truthy (map_of (cache (resultCache s)) (cacheKeyOf (opts t)))"
    using assms by simp
  have "case map_of (promiseCache s) (getKey ja zh t) of
          Some p \<Rightarrow> translate s (opts t) = (Attached p, s)
        | None \<Rightarrow>
            fst (translate s (opts t)) = Created (nextPromise s) \<and>
            map_of (promiseCache (snd (translate s (opts t)))) (getKey ja zh t) =
              Some (nextPromise s) \<and>
            (nextPromise s, opts t) \<in> set (requests (snd (translate s (opts t)))) \<and>
            resultCache (snd (translate s (opts t))) = resultCache s"
    if nb: "trim t \<noteq> []"
  proof (cases "map_of (promiseCache s) (getKey ja zh t)")
    case None
    have a: "supported (opts t)" "trim (text' (opts t)) \<noteq> []"
      "map_of (promiseCache s) (cacheKeyOf (opts t)) = None"
      using nb None by simp_all
    from created_request [OF a(1) a(2) m a(3)] None show ?thesis by simp
  next
    case (Some p)
    have a: "supported (opts t)" "trim (text' (opts t)) \<noteq> []"
      "map_of (promiseCache s) (cacheKeyOf (opts t)) = Some p"
      using nb Some by simp_all
    from translate_attached [OF a(1) a(2) m a(3)] Some show ?thesis by simp
  qed
  with g show ?thesis by blast
qed

text \<open>A fresh service whose result cache was given the empty string for one text.\<close>

theorem empty_cached_value_is_miss_witness:
  "map_of (cache (resultCache stale_service)) (getKey ja zh [0x61]) = Some [] \<and>
   trim [0x61] \<noteq> [] \<and>
   map_of (promiseCache stale_service) (getKey ja zh [0x61]) = None \<and>
   lru_get (resultCache stale_service) ja zh [0x61] = (Some [], resultCache stale_service) \<and>
   fst (translate stale_service (opts [0x61])) = Created 0 \<and>
   (0, opts [0x61]) \<in> set (requests (snd (translate stale_service (opts [0x61]))))"
proof -
  have h: "map_of (cache (resultCache stale_service)) (getKey ja zh [0x61]) = Some []"
    by (simp add: stale_service_def new_TranslationService_def lru_set_same)
  have nb: "trim [0x61] \<noteq> []"
    by (simp add: trim_def isWhiteSpace_def)
  have np: "map_of (promiseCache stale_service) (getKey ja zh [0x61]) = None"
    "nextPromise stale_service = 0"
    by (simp_all add: stale_service_def new_TranslationService_def)
  from empty_cached_value_is_miss [OF h] nb np h show ?thesis by simp
qed

lemma translate_Returns_again:
  assumes "fst (translate s options) = Returns r"
  shows "fst (translate (snd (translate s options)) options) = Returns r \<and>
         remoteCalls (snd (translate (snd (translate s options)) options)) = remoteCalls s \<and>
         translationQueue (snd (translate (snd (translate s options)) options)) = translationQueue s \<and>
         executing (snd (translate (snd (translate s options)) options)) = executing s \<and>
         promiseCache (snd (translate (snd (translate s options)) options)) = promiseCache s"
proof -
  let ?v = "map_of (cache (resultCache s)) (cacheKeyOf options)"
  consider (u) "\<not> supported options"
    | (b) "supported options" "trim (text' options) = []"
    | (h) v where "supported options" "trim (text' options) \<noteq> []" "?v = Some v" "v \<noteq> []"
    | (a) p where "supported options" "trim (text' options) \<noteq> []" "\<not> truthy ?v"
        "map_of (promiseCache s) (cacheKeyOf options) = Some p"
    | (n) "supported options" "trim (text' options) \<noteq> []" "\<not> truthy ?v"
        "map_of (promiseCache s) (cacheKeyOf options) = None"
    by (cases ?v; cases "map_of (promiseCache s) (cacheKeyOf options)"; fastforce)
  then show ?thesis
  proof cases
    case u
    with assms show ?thesis by (simp add: translate_unsupported)
  next
    case b
    with assms show ?thesis by (simp add: translate_blank)
  next
    case h
    let ?s1 = "s\<lparr>resultCache := snd (lru_get (resultCache s) ja zh (text' options))\<rparr>"
    from h have t1: "translate s options = (Returns v, ?s1)" by (rule translate_hit)
    from h have "map_of (cache (resultCache ?s1)) (cacheKeyOf options) = Some v" by simp
    from translate_hit [OF h(1) h(2) this h(4)] t1 assms show ?thesis by simp
  next
    case a
    with assms show ?thesis by (simp add: translate_attached)
  next
    case n
    with assms show ?thesis by (simp add: translate_created)
  qed
qed

lemma translate_after_resume:
  assumes w: "(p, options) \<in> set (suspended (run es))"
    and f: "promises (run es) p = Fulfilled r"
  shows "fst (lru_get (resultCache (resume (run es) p)) (sourceLanguage options)
              (targetLanguage options) (text' options)) = Some r \<and>
         fst (translate (resume (run es) p) options) = Returns r \<and>
         remoteCalls (snd (translate (resume (run es) p) options)) = remoteCalls (run es) \<and>
         translationQueue (snd (translate (resume (run es) p) options)) = translationQueue (run es) \<and>
         executing (snd (translate (resume (run es) p) options)) = executing (run es) \<and>
         map_of (promiseCache (snd (translate (resume (run es) p) options))) (cacheKeyOf options) = None"
proof -
  let ?s = "run es"
  have c: "consistent ?s" by (rule consistent_run)
  from f have st: "promises ?s p \<noteq> Pending" by simp
  let ?s1 = "?s\<lparr>resultCache := lru_set (resultCache ?s) (sourceLanguage options)
                                           (targetLanguage options) (text' options) r,
       promiseCache := AList.delete (cacheKeyOf options) (promiseCache ?s),
       suspended := filter (\<lambda>w. fst w \<noteq> p) (suspended ?s)\<rparr>"
  from resume_settled [OF c w st] f have r1: "resume ?s p = ?s1" by simp
  from c w have sup: "supported options" and nb: "trim (text' options) \<noteq> []"
    by (auto simp: consistent_def)
  from c f have ne: "r \<noteq> []" by (auto simp: consistent_def)
  have hit: "map_of (cache (resultCache ?s1)) (cacheKeyOf options) = Some r"
    by (simp add: cacheKeyOf_def lru_set_same)
  note t = translate_hit [OF sup nb hit ne]
  have "map_of (AList.delete (cacheKeyOf options) (promiseCache ?s)) (cacheKeyOf options) = None"
    by (simp add: AList.delete_conv')
  with hit show ?thesis unfolding r1 t by (simp add: cacheKeyOf_def)
qed

text \<open>
  Claim C6. In every reachable state: when the call that requested a translation
  continues with the result \<open>r\<close>, a second call with the same options, made next,
  finds \<open>r\<close> in the result cache and returns it; the number of requests sent, the
  queue and the running tasks are as before, and no request is pending for the
  key. Likewise, when a call returns \<open>r\<close> at once, the same call repeated returns
  \<open>r\<close> again and sends nothing.
\<close>

theorem translate_twice:
  "((p, options) \<in> set (suspended (run es)) \<and> promises (run es) p = Fulfilled r \<longrightarrow>
      fst (lru_get (resultCache (resume (run es) p)) (sourceLanguage options)
              (targetLanguage options) (text' options)) = Some r \<and>
      fst (translate (resume (run es) p) options) = Returns r \<and>
      remoteCalls (snd (translate (resume (run es) p) options)) = remoteCalls (run es) \<and>
      translationQueue (snd (translate (resume (run es) p) options)) = translationQueue (run es) \<and>
      executing (snd (translate (resume (run es) p) options)) = executing (run es) \<and>
      map_of (promiseCache (snd (translate (resume (run es) p) options))) (cacheKeyOf options) = None) \<and>
   (fst (translate s options) = Returns r \<longrightarrow>
      fst (translate (snd (translate s options)) options) = Returns r \<and>
      remoteCalls (snd (translate (snd (translate s options)) options)) = remoteCalls s \<and>
      translationQueue (snd (translate (snd (translate s options)) options)) = translationQueue s \<and>
      executing (snd (translate (snd (translate s options)) options)) = executing s \<and>
      promiseCache (snd (translate (snd (translate s options)) options)) = promiseCache s)"
  using translate_after_resume [of p options es r] translate_Returns_again [of s options r]
  by blast

lemma first_call_state:
  "run first_call =
     new_TranslationService
       \<lparr>promiseCache := [(getKey ja zh [0x61], 0)], activeTranslations := 0,
        isProcessing := False, promises := (\<lambda>p. Pending)(0 := Fulfilled [0x4F60]),
        nextPromise := 1, suspended := [(0, opts [0x61])], remoteCalls := 1\<rparr>"
  by (simp add: first_call_def run_def translate_def respond_def settle_def
      startProcessingQueue_def processQueueIterative_def executeTranslationTask_def
      issueRequest_def translateWithGoogleAPI_def processedText_def maxTextLength_def
      new_TranslationService_def new_LRUCache_def lru_get_def Let_def trim_def
      isWhiteSpace_def isLineBreak_def)

text \<open>
  One call, answered by the remote service; the second and the third call return
  the same text and the number of requests stays 1.
\<close>

theorem translate_twice_witness:
  "(0, opts [0x61]) \<in> set (suspended (run first_call)) \<and>
   promises (run first_call) 0 = Fulfilled [0x4F60] \<and>
   remoteCalls (run first_call) = 1 \<and>
   fst (translate (resume (run first_call) 0) (opts [0x61])) = Returns [0x4F60] \<and>
   remoteCalls (snd (translate (resume (run first_call) 0) (opts [0x61]))) = 1 \<and>
   fst (translate (snd (translate (resume (run first_call) 0) (opts [0x61]))) (opts [0x61])) =
     Returns [0x4F60]"
proof -
  have a: "(0, opts [0x61]) \<in> set (suspended (run first_call))"
    by (simp add: first_call_state)
  have b: "promises (run first_call) 0 = Fulfilled [0x4F60]"
    by (simp add: first_call_state)
  have c: "remoteCalls (run first_call) = 1"
    by (simp add: first_call_state new_TranslationService_def)
  from translate_twice [of 0 "opts [0x61]" first_call "[0x4F60]"] a b
  have d: "fst (translate (resume (run first_call) 0) (opts [0x61])) = Returns [0x4F60]"
    and e: "remoteCalls (snd (translate (resume (run first_call) 0) (opts [0x61]))) =
            remoteCalls (run first_call)"
    by blast+
  from translate_twice [of 0 "opts [0x61]" "[]" "[0x4F60]" "resume (run first_call) 0"] d
  have "fst (translate (snd (translate (resume (run first_call) 0) (opts [0x61]))) (opts [0x61])) =
     Returns [0x4F60]"
    by blast
  with a b c d e show ?thesis by simp
qed

lemma suspended_keys_distinct:
  assumes "consistent s"
  shows "distinct (map (\<lambda>w. cacheKeyOf (snd w)) (suspended s))"
proof -
  from assms have d: "distinct (map fst (suspended s))"
    and su: "\<And>p x. (p, x) \<in> set (suspended s) \<Longrightarrow> map_of (promiseCache s) (cacheKeyOf x) = Some p"
    by (auto simp: consistent_def)
  have "inj_on (\<lambda>w. cacheKeyOf (snd w)) (set (suspended s))"
  proof (rule inj_onI)
    fix v w assume v: "v \<in> set (suspended s)" and w: "w \<in> set (suspended s)"
      and k: "cacheKeyOf (snd v) = cacheKeyOf (snd w)"
    from su [of "fst v" "snd v"] v have "map_of (promiseCache s) (cacheKeyOf (snd v)) = Some (fst v)"
      by simp
    moreover from su [of "fst w" "snd w"] w
    have "map_of (promiseCache s) (cacheKeyOf (snd w)) = Some (fst w)" by simp
    ultimately have "fst v = fst w" using k by simp
    with d v w show "v = w" by (metis eq_key_imp_eq_value prod.collapse)
  qed
  moreover from d have "distinct (suspended s)" by (simp add: distinct_map)
  ultimately show ?thesis by (simp add: distinct_map)
qed

lemma attach_to_pending:
  assumes c: "consistent s" and sup: "supported options"
    and pe: "map_of (promiseCache s) (cacheKeyOf options) = Some p"
  shows "translate s options = (Attached p, s)"
proof -
  from pe have "(cacheKeyOf options, p) \<in> set (promiseCache s)" by (rule map_of_SomeD)
  with c obtain x where x: "(p, x) \<in> set (suspended s)" "cacheKeyOf x = cacheKeyOf options"
    by (auto simp: consistent_def)
  with c have sx: "supported x" and nb: "trim (text' x) \<noteq> []"
    and miss: "\<not> truthy (map_of (cache (resultCache s)) (cacheKeyOf x))"
    by (auto simp: consistent_def)
  from cacheKeyOf_inject [OF sx sup x(2)] have "x = options" .
  with nb miss show ?thesis using sup pe by (simp add: translate_attached)
qed

lemma resume_removes_entry:
  assumes c: "consistent s" and w: "(p, options) \<in> set (suspended s)"
    and st: "promises s p \<noteq> Pending"
  shows "map_of (promiseCache (resume s p)) (cacheKeyOf options) = None"
    and "(p, options) \<notin> set (suspended (resume s p))"
  unfolding resume_settled [OF c w st] by (simp_all add: AList.delete_conv')

text \<open>
  Claim C2. After every sequence of calls, responses and continuations:
  \<open>promiseCache\<close> has at most one entry per key, no two suspended calls have the
  same key, and the entries are exactly those of the suspended calls; a call for a
  key that has an entry returns the promise of that entry and changes nothing (no
  request is queued); and once the promise of a suspended call is settled,
  fulfilled or rejected, the continuation of that call removes the entry.
\<close>

theorem one_pending_request_per_key:
  "distinct (map fst (promiseCache (run es))) \<and>
   distinct (map (\<lambda>w. cacheKeyOf (snd w)) (suspended (run es))) \<and>
   (\<forall>(k, p) \<in> set (promiseCache (run es)).
      \<exists>options. (p, options) \<in> set (suspended (run es)) \<and> cacheKeyOf options = k) \<and>
   (\<forall>options p. supported options \<and>
        map_of (promiseCache (run es)) (cacheKeyOf options) = Some p \<longrightarrow>
        translate (run es) options = (Attached p, run es)) \<and>
   (\<forall>(p, options) \<in> set (suspended (run es)).
        map_of (promiseCache (run es)) (cacheKeyOf options) = Some p \<and>
        (promises (run es) p \<noteq> Pending \<longrightarrow>
           map_of (promiseCache (resume (run es) p)) (cacheKeyOf options) = None \<and>
           (p, options) \<notin> set (suspended (resume (run es) p))))"
proof -
  have c: "consistent (run es)" by (rule consistent_run)
  then have "distinct (map fst (promiseCache (run es)))"
    and "\<forall>(k, p) \<in> set (promiseCache (run es)).
      \<exists>options. (p, options) \<in> set (suspended (run es)) \<and> cacheKeyOf options = k"
    and "\<forall>(p, options) \<in> set (suspended (run es)).
        map_of (promiseCache (run es)) (cacheKeyOf options) = Some p"
    by (auto simp: consistent_def)
  with suspended_keys_distinct [OF c] attach_to_pending [OF c] resume_removes_entry [OF c]
  show ?thesis by (intro conjI; fast)
qed

lemma two_calls_state:
  "run two_calls =
     new_TranslationService
       \<lparr>promiseCache := [(getKey ja zh [0x61], 0), (getKey ja zh [0x62], 1)],
        activeTranslations := 1, isProcessing := True,
        promises := (\<lambda>p. Pending)(0 := Fulfilled [0x4F60]),
        nextPromise := 2, executing := [(1, opts [0x62], 0)],
        suspended := [(0, opts [0x61]), (1, opts [0x62])], remoteCalls := 2\<rparr>"
  by (simp add: two_calls_def run_def translate_def respond_def settle_def
      startProcessingQueue_def processQueueIterative_def executeTranslationTask_def
      issueRequest_def translateWithGoogleAPI_def processedText_def maxTextLength_def
      new_TranslationService_def new_LRUCache_def lru_get_def Let_def trim_def
      isWhiteSpace_def isLineBreak_def getKey_def)

text \<open>
  Two texts are requested and the first is answered: a further call for the second
  text gets its pending promise, and the continuation of the first call removes
  the first entry.
\<close>

theorem one_pending_request_per_key_witness:
  "supported (opts [0x62]) \<and>
   map_of (promiseCache (run two_calls)) (cacheKeyOf (opts [0x62])) = Some 1 \<and>
   translate (run two_calls) (opts [0x62]) = (Attached 1, run two_calls) \<and>
   (0, opts [0x61]) \<in> set (suspended (run two_calls)) \<and>
   promises (run two_calls) 0 \<noteq> Pending \<and>
   map_of (promiseCache (run two_calls)) (cacheKeyOf (opts [0x61])) = Some 0 \<and>
   map_of (promiseCache (resume (run two_calls) 0)) (cacheKeyOf (opts [0x61])) = None"
proof -
  have a: "supported (opts [0x62])" by simp
  have b: "map_of (promiseCache (run two_calls)) (cacheKeyOf (opts [0x62])) = Some 1"
    by (simp add: two_calls_state getKey_def)
  have c: "(0, opts [0x61]) \<in> set (suspended (run two_calls))"
    by (simp add: two_calls_state)
  have d: "promises (run two_calls) 0 \<noteq> Pending"
    by (simp add: two_calls_state)
  note t = one_pending_request_per_key [of two_calls]
  from t a b have e: "translate (run two_calls) (opts [0x62]) = (Attached 1, run two_calls)"
    by blast
  from t c d have f: "map_of (promiseCache (run two_calls)) (cacheKeyOf (opts [0x61])) = Some 0 \<and>
    map_of (promiseCache (resume (run two_calls) 0)) (cacheKeyOf (opts [0x61])) = None"
    by blast
  from a b c d e f show ?thesis by blast
qed

section \<open>Properties of translateBatch\<close>

lemma floor_sqrt_bounds: "floor_sqrt n * floor_sqrt n \<le> n \<and> n < (floor_sqrt n + 1) * (floor_sqrt n + 1)"
  by (induction n) (auto simp: Let_def)

lemma floor_sqrt_unique:
  assumes "r * r \<le> n" "n < (r + 1) * (r + 1)"
  shows "floor_sqrt n = (r::nat)"
proof (rule ccontr)
  let ?s = "floor_sqrt n"
  assume "?s \<noteq> r"
  then consider "?s + 1 \<le> r" | "r + 1 \<le> ?s" by linarith
  then show False
  proof cases
    case 1
    then have "(?s + 1) * (?s + 1) \<le> r * r" using mult_le_mono by blast
    with assms(1) floor_sqrt_bounds [of n] show False by linarith
  next
    case 2
    then have "(r + 1) * (r + 1) \<le> ?s * ?s" using mult_le_mono by blast
    with assms(2) floor_sqrt_bounds [of n] show False by linarith
  qed
qed








lemma length_long_text: "length long_text = 1001"
  by (simp add: long_text_def)

lemma floor_sqrt_250: "floor_sqrt 250 = 15"
  by (rule floor_sqrt_unique) simp_all

text \<open>
  Claim C1 fails on the code. Ten uncached texts of 1001 characters form one batch of
  size 10 holding 10010 characters; the batch is cut to 9 tasks, the loop steps on
  by 10, and the tenth text is never submitted: the result has ten slots and the
  last one is unfilled, although every call of \<open>translate\<close> succeeded.
\<close>

theorem translateBatch_unfilled_slot:
  "translateBatch new_TranslationService (\<lambda>i t. Inr translated) ten_texts ja zh =
     Inr [Some translated, Some translated, Some translated, Some translated, Some translated,
          Some translated, Some translated, Some translated, Some translated, None]"
  by (simp add: translateBatch_def ten_texts_def new_TranslationService_def new_LRUCache_def lru_get_def Let_def
      length_long_text dynamicBatchSize_def baseBatchSize_def charsPerBatchTerm_def
      maxCharsPerBatch_def totalChars_def floor_sqrt_250 effectiveBatchSize_def submit_def
      fillResults_def)

text \<open>
  The language pair is the supported one, the call returns a list of ten slots, the
  ninth holds a translation and the tenth holds nothing.
\<close>

theorem translateBatch_unfilled_slot_witness:
  "\<not> (ja \<noteq> ja \<or> zh \<noteq> zh) \<and>
   (case translateBatch new_TranslationService (\<lambda>i t. Inr translated) ten_texts ja zh of
      Inl e \<Rightarrow> False
    | Inr results \<Rightarrow>
        length results = length ten_texts \<and> results ! 8 = Some translated \<and> results ! 9 = None)"
  using translateBatch_unfilled_slot by (simp add: ten_texts_def)

section \<open>Properties of the translation hook\<close>

lemma setText_frame [simp]:
  "isCancelledRef (setText h k i v) = isCancelledRef h"
  "translationProgress (setText h k i v) = translationProgress h"
  "progressRef (setText h k i v) = progressRef h"
  "translationCacheRef (setText h k i v) = translationCacheRef h"
  "onTranslated (setText h k i v) = onTranslated h"
  "errorLog (setText h k i v) = errorLog h"
  "isTranslating (setText h k i v) = isTranslating h"
  "length (sessions (setText h k i v)) = length (sessions h)"
  by (simp_all add: setText_def)

lemma setText_session [simp]:
  assumes "k < length (sessions h)"
  shows "awaiting (sessions (setText h k i v) ! k) = awaiting (sessions h ! k)"
    and "loopIndex (sessions (setText h k i v) ! k) = loopIndex (sessions h ! k)"
    and "returned (sessions (setText h k i v) ! k) = returned (sessions h ! k)"
    and "target (sessions (setText h k i v) ! k) = target (sessions h ! k)"
    and "translatedSubtitles (sessions (setText h k i v) ! k) =
           (translatedSubtitles (sessions h ! k))
             [i := (translatedSubtitles (sessions h ! k) ! i)\<lparr>line_text := v\<rparr>]"
  using assms by (simp_all add: setText_def)

lemma countCompleted_frame [simp]:
  "isCancelledRef (countCompleted h) = isCancelledRef h"
  "translationProgress (countCompleted h) = (fst (progressRef h) + 1, snd (progressRef h))"
  "progressRef (countCompleted h) = (fst (progressRef h) + 1, snd (progressRef h))"
  "translationCacheRef (countCompleted h) = translationCacheRef h"
  "onTranslated (countCompleted h) = onTranslated h"
  "errorLog (countCompleted h) = errorLog h"
  "sessions (countCompleted h) = sessions h"
  "isTranslating (countCompleted h) = isTranslating h"
  by (simp_all add: countCompleted_def Let_def)

lemma line_text_update:
  "i < length xs \<Longrightarrow> j < length xs \<Longrightarrow>
   line_text ((xs[j := (xs ! j)\<lparr>line_text := v\<rparr>]) ! i) = (if i = j then v else line_text (xs ! i))"
  by (simp add: nth_list_update)

lemma translateItem_hit:
  "\<not> isCancelledRef h \<Longrightarrow>
   map_of (translationCacheRef h)
     (hookCacheKey (line_text (translatedSubtitles (sessions h ! k) ! i)) (target (sessions h ! k))) = Some v \<Longrightarrow>
   translateItem h k i = countCompleted (setText h k i v)"
  by (simp add: translateItem_def Let_def)

lemma translateItem_miss:
  "\<not> isCancelledRef h \<Longrightarrow>
   map_of (translationCacheRef h)
     (hookCacheKey (line_text (translatedSubtitles (sessions h ! k) ! i)) (target (sessions h ! k))) = None \<Longrightarrow>
   translateItem h k i =
     h\<lparr>sessions := (sessions h)
          [k := (sessions h ! k)
             \<lparr>awaiting := awaiting (sessions h ! k) @
                [(i, line_text (translatedSubtitles (sessions h ! k) ! i))]\<rparr>]\<rparr>"
  by (simp add: translateItem_def Let_def)

lemma trackingI:
  assumes "length (sessions h) = 1" and "\<not> isCancelledRef h"
    and "length (translatedSubtitles (sessions h ! 0)) = length subs"
    and "translationProgress h = progressRef h" and "snd (progressRef h) = length subs"
    and "d \<le> length subs"
    and "distinct (map fst (awaiting (sessions h ! 0)))"
    and "\<And>i t. (i, t) \<in> set (awaiting (sessions h ! 0)) \<Longrightarrow> i < d \<and> t = line_text (subs ! i)"
    and "distinct (errorLog h)"
    and "\<And>k i. (k, i) \<in> set (errorLog h) \<Longrightarrow>
           k = 0 \<and> i < d \<and> i \<notin> fst ` set (awaiting (sessions h ! 0))"
    and "fst (progressRef h) + length (errorLog h) + length (awaiting (sessions h ! 0)) = d"
    and "\<And>i. i < length subs \<Longrightarrow>
           d \<le> i \<or> i \<in> fst ` set (awaiting (sessions h ! 0)) \<or> (0, i) \<in> set (errorLog h) \<Longrightarrow>
           line_text (translatedSubtitles (sessions h ! 0) ! i) = line_text (subs ! i)"
  shows "tracking subs d h"
  unfolding tracking_def using assms by blast

lemma trackingD:
  assumes "tracking subs d h"
  shows "length (sessions h) = 1" and "\<not> isCancelledRef h"
    and "length (translatedSubtitles (sessions h ! 0)) = length subs"
    and "translationProgress h = progressRef h" and "snd (progressRef h) = length subs"
    and "d \<le> length subs"
    and "distinct (map fst (awaiting (sessions h ! 0)))"
    and "\<And>i t. (i, t) \<in> set (awaiting (sessions h ! 0)) \<Longrightarrow> i < d \<and> t = line_text (subs ! i)"
    and "distinct (errorLog h)"
    and "\<And>k i. (k, i) \<in> set (errorLog h) \<Longrightarrow>
           k = 0 \<and> i < d \<and> i \<notin> fst ` set (awaiting (sessions h ! 0))"
    and "fst (progressRef h) + length (errorLog h) + length (awaiting (sessions h ! 0)) = d"
    and "\<And>i. i < length subs \<Longrightarrow>
           d \<le> i \<or> i \<in> fst ` set (awaiting (sessions h ! 0)) \<or> (0, i) \<in> set (errorLog h) \<Longrightarrow>
           line_text (translatedSubtitles (sessions h ! 0) ! i) = line_text (subs ! i)"
  using assms unfolding tracking_def by blast+

lemma tracking_translateItem:
  assumes t: "tracking subs j h" and j: "j < length subs"
  shows "tracking subs (Suc j) (translateItem h 0 j)"
proof -
  let ?S = "sessions h ! 0"
  note len = trackingD(1) [OF t] and nc = trackingD(2) [OF t] and ls = trackingD(3) [OF t]
    and pe = trackingD(4) [OF t] and pt = trackingD(5) [OF t] and da = trackingD(7) [OF t]
    and aw = trackingD(8) [OF t] and de = trackingD(9) [OF t] and el = trackingD(10) [OF t]
    and cnt = trackingD(11) [OF t] and tx = trackingD(12) [OF t]
  have k0: "0 < length (sessions h)" using len by simp
  have awj: "i \<noteq> j" if "(i, t) \<in> set (awaiting ?S)" for i t using aw [OF that] by simp
  have elj: "i \<noteq> j" if "(k, i) \<in> set (errorLog h)" for k i using el [OF that] by simp
  have cur: "line_text (translatedSubtitles ?S ! j) = line_text (subs ! j)"
    using tx [OF j] by simp
  show ?thesis
  proof (cases "map_of (translationCacheRef h)
     (hookCacheKey (line_text (translatedSubtitles ?S ! j)) (target ?S))")
    case (Some v)
    let ?h = "countCompleted (setText h 0 j v)"
    have eq: "translateItem h 0 j = ?h" using nc Some by (rule translateItem_hit)
    have a: "awaiting (sessions ?h ! 0) = awaiting ?S" using k0 by simp
    have s: "translatedSubtitles (sessions ?h ! 0) =
        (translatedSubtitles ?S)[j := (translatedSubtitles ?S ! j)\<lparr>line_text := v\<rparr>]"
      using k0 by simp
    show ?thesis unfolding eq
    proof (rule trackingI)
      show "length (sessions ?h) = 1" using len by simp
      show "\<not> isCancelledRef ?h" using nc by simp
      show "length (translatedSubtitles (sessions ?h ! 0)) = length subs" using ls k0 by simp
      show "translationProgress ?h = progressRef ?h" by simp
      show "snd (progressRef ?h) = length subs" using pt by simp
      show "Suc j \<le> length subs" using j by simp
      show "distinct (map fst (awaiting (sessions ?h ! 0)))" using da by (simp only: a)
      show "i < Suc j \<and> t = line_text (subs ! i)" if "(i, t) \<in> set (awaiting (sessions ?h ! 0))" for i t
        using that aw [of i t] unfolding a by simp
      show "distinct (errorLog ?h)" using de by simp
      show "k = 0 \<and> i < Suc j \<and> i \<notin> fst ` set (awaiting (sessions ?h ! 0))"
        if "(k, i) \<in> set (errorLog ?h)" for k i
        using that el [of k i] unfolding a by simp
      show "fst (progressRef ?h) + length (errorLog ?h) + length (awaiting (sessions ?h ! 0)) = Suc j"
        using cnt unfolding a by simp
      show "line_text (translatedSubtitles (sessions ?h ! 0) ! i) = line_text (subs ! i)"
        if i: "i < length subs"
          and c: "Suc j \<le> i \<or> i \<in> fst ` set (awaiting (sessions ?h ! 0)) \<or> (0, i) \<in> set (errorLog ?h)"
        for i
      proof -
        from c have c': "Suc j \<le> i \<or> i \<in> fst ` set (awaiting ?S) \<or> (0, i) \<in> set (errorLog h)"
          unfolding a by simp
        then have ne: "i \<noteq> j" using awj elj by fastforce
        from c' have "j \<le> i \<or> i \<in> fst ` set (awaiting ?S) \<or> (0, i) \<in> set (errorLog h)"
          by auto
        from tx [OF i this] ne i j ls show ?thesis
          unfolding s by (simp add: line_text_update)
      qed
    qed
  next
    case None
    let ?t = "line_text (translatedSubtitles ?S ! j)"
    let ?h = "h\<lparr>sessions := (sessions h)[0 := ?S\<lparr>awaiting := awaiting ?S @ [(j, ?t)]\<rparr>]\<rparr>"
    have eq: "translateItem h 0 j = ?h" using nc None by (rule translateItem_miss)
    have a: "awaiting (sessions ?h ! 0) = awaiting ?S @ [(j, ?t)]" using k0 by simp
    have s: "translatedSubtitles (sessions ?h ! 0) = translatedSubtitles ?S" using k0 by simp
    have nj: "j \<notin> fst ` set (awaiting ?S)" using awj by force
    show ?thesis unfolding eq
    proof (rule trackingI)
      show "length (sessions ?h) = 1" using len by simp
      show "\<not> isCancelledRef ?h" using nc by simp
      show "length (translatedSubtitles (sessions ?h ! 0)) = length subs" unfolding s using ls .
      show "translationProgress ?h = progressRef ?h" using pe by simp
      show "snd (progressRef ?h) = length subs" using pt by simp
      show "Suc j \<le> length subs" using j by simp
      show "distinct (map fst (awaiting (sessions ?h ! 0)))" using da nj unfolding a by simp
      show "i < Suc j \<and> t = line_text (subs ! i)" if "(i, t) \<in> set (awaiting (sessions ?h ! 0))" for i t
        using that aw [of i t] cur unfolding a by auto
      show "distinct (errorLog ?h)" using de by simp
      show "k = 0 \<and> i < Suc j \<and> i \<notin> fst ` set (awaiting (sessions ?h ! 0))"
        if "(k, i) \<in> set (errorLog ?h)" for k i
        using that el [of k i] elj [of k i] unfolding a by auto
      show "fst (progressRef ?h) + length (errorLog ?h) + length (awaiting (sessions ?h ! 0)) = Suc j"
        using cnt unfolding a by simp
      show "line_text (translatedSubtitles (sessions ?h ! 0) ! i) = line_text (subs ! i)"
        if i: "i < length subs"
          and c: "Suc j \<le> i \<or> i \<in> fst ` set (awaiting (sessions ?h ! 0)) \<or> (0, i) \<in> set (errorLog ?h)"
        for i
      proof (cases "i = j")
        case True
        then show ?thesis unfolding s using cur by simp
      next
        case False
        with c have "j \<le> i \<or> i \<in> fst ` set (awaiting ?S) \<or> (0, i) \<in> set (errorLog h)"
          unfolding a by auto
        from tx [OF i this] show ?thesis unfolding s .
      qed
    qed
  qed
qed

lemma translateItem_frame:
  assumes "k < length (sessions h)"
  shows "onTranslated (translateItem h k i) = onTranslated h"
    and "length (sessions (translateItem h k i)) = length (sessions h)"
    and "loopIndex (sessions (translateItem h k i) ! k) = loopIndex (sessions h ! k)"
    and "returned (sessions (translateItem h k i) ! k) = returned (sessions h ! k)"
  using assms
  by (auto simp: translateItem_def Let_def split: option.splits)

lemma tracking_fold:
  assumes "tracking subs i h" and "i \<le> m" and "m \<le> length subs"
  shows "tracking subs m (foldl (\<lambda>h j. translateItem h 0 j) h [i..<m]) \<and>
         onTranslated (foldl (\<lambda>h j. translateItem h 0 j) h [i..<m]) = onTranslated h \<and>
         loopIndex (sessions (foldl (\<lambda>h j. translateItem h 0 j) h [i..<m]) ! 0) =
           loopIndex (sessions h ! 0) \<and>
         returned (sessions (foldl (\<lambda>h j. translateItem h 0 j) h [i..<m]) ! 0) =
           returned (sessions h ! 0)"
  using assms(2,3)
proof (induction m rule: nat_induct_at_least)
  case base
  then show ?case using assms(1) by simp
next
  case (Suc m)
  let ?h = "foldl (\<lambda>h j. translateItem h 0 j) h [i..<m]"
  from Suc have IH: "tracking subs m ?h" "onTranslated ?h = onTranslated h"
    "loopIndex (sessions ?h ! 0) = loopIndex (sessions h ! 0)"
    "returned (sessions ?h ! 0) = returned (sessions h ! 0)"
    by simp_all
  from Suc.prems have m: "m < length subs" by simp
  have k0: "0 < length (sessions ?h)" using trackingD(1) [OF IH(1)] by simp
  have f: "foldl (\<lambda>h j. translateItem h 0 j) h [i..<Suc m] = translateItem ?h 0 m"
    using Suc.hyps by simp
  show ?case unfolding f
    using tracking_translateItem [OF IH(1) m] translateItem_frame [OF k0, of m] IH(2-4)
    by simp
qed

lemma tracking_loopIndex:
  assumes "tracking subs d h"
  shows "tracking subs d (h\<lparr>sessions := (sessions h)[0 := (sessions h ! 0)\<lparr>loopIndex := i\<rparr>]\<rparr>)"
proof -
  have "0 < length (sessions h)" using trackingD(1) [OF assms] by simp
  with assms show ?thesis unfolding tracking_def by simp
qed

lemma tracking_startWave:
  assumes t: "tracking subs i h" and i: "i < length subs"
  shows "tracking subs (min (i + 5) (length subs)) (startWave h 0 i)"
    and "onTranslated (startWave h 0 i) = onTranslated h"
    and "loopIndex (sessions (startWave h 0 i) ! 0) = i"
    and "returned (sessions (startWave h 0 i) ! 0) = returned (sessions h ! 0)"
proof -
  let ?h = "h\<lparr>sessions := (sessions h)[0 := (sessions h ! 0)\<lparr>loopIndex := i\<rparr>]\<rparr>"
  let ?m = "min (i + 5) (length subs)"
  have k0: "0 < length (sessions h)" using trackingD(1) [OF t] by simp
  have ls: "length (translatedSubtitles (sessions h ! 0)) = length subs" by (rule trackingD(3) [OF t])
  have sw: "startWave h 0 i = foldl (\<lambda>h j. translateItem h 0 j) ?h [i..<?m]"
    by (simp add: startWave_def maxConcurrentItems_def ls)
  have "i \<le> ?m" "?m \<le> length subs" using i by simp_all
  from tracking_fold [OF tracking_loopIndex [OF t] this] k0
  show "tracking subs ?m (startWave h 0 i)"
    and "onTranslated (startWave h 0 i) = onTranslated h"
    and "loopIndex (sessions (startWave h 0 i) ! 0) = i"
    and "returned (sessions (startWave h 0 i) ! 0) = returned (sessions h ! 0)"
    unfolding sw by simp_all
qed

lemma wave_count: 
  assumes "i < n"
  shows "(n - i + 4) div 5 = Suc ((n - (i + 5) + 4) div (5::nat))"
proof -
  from assms obtain d where d: "n = Suc (i + d)" by (auto dest: less_imp_Suc_add)
  have a: "(n - i + 4) div 5 = Suc (d div 5)" unfolding d by simp
  show ?thesis
  proof (cases "4 \<le> d")
    case True
    then have "n - (i + 5) + 4 = d" unfolding d by simp
    with a show ?thesis by simp
  next
    case False
    then have "n - (i + 5) = 0" "d div 5 = 0" unfolding d by simp_all
    with a show ?thesis by simp
  qed
qed

lemma waveStarts_rec:
  "waveStarts i n = (if i < n then i # waveStarts (i + 5) n else [])"
proof (cases "i < n")
  case False
  then show ?thesis by (simp add: waveStarts_def)
next
  case True
  let ?c = "(n - (i + 5) + 4) div 5"
  from True have c: "(n - i + 4) div 5 = Suc ?c"
    by (rule wave_count)
  have "waveStarts i n = map (\<lambda>m. i + 5 * m) [0..<Suc ?c]"
    by (simp only: waveStarts_def maxConcurrentItems_def c)
  also have "\<dots> = (i + 5 * 0) # map (\<lambda>m. i + 5 * Suc m) [0..<?c]"
    by (rule map_upt_Suc)
  also have "\<dots> = i # waveStarts (i + 5) n"
    by (simp add: waveStarts_def maxConcurrentItems_def)
  finally show ?thesis using True by simp
qed

lemma tracking_finish:
  assumes "tracking subs d h"
  shows "tracking subs d (finish h 0)"
    and "returned (sessions (finish h 0) ! 0)"
    and "onTranslated (finish h 0) = onTranslated h @ [(0, translatedSubtitles (sessions h ! 0))]"
    and "translatedSubtitles (sessions (finish h 0) ! 0) = translatedSubtitles (sessions h ! 0)"
    and "awaiting (sessions (finish h 0) ! 0) = awaiting (sessions h ! 0)"
    and "loopIndex (sessions (finish h 0) ! 0) = loopIndex (sessions h ! 0)"
proof -
  have k0: "0 < length (sessions h)" using trackingD(1) [OF assms] by simp
  have nc: "\<not> isCancelledRef h" by (rule trackingD(2) [OF assms])
  from assms k0 nc show "tracking subs d (finish h 0)"
    unfolding tracking_def finish_def Let_def by simp
  from k0 nc show "returned (sessions (finish h 0) ! 0)"
    and "onTranslated (finish h 0) = onTranslated h @ [(0, translatedSubtitles (sessions h ! 0))]"
    and "translatedSubtitles (sessions (finish h 0) ! 0) = translatedSubtitles (sessions h ! 0)"
    and "awaiting (sessions (finish h 0) ! 0) = awaiting (sessions h ! 0)"
    and "loopIndex (sessions (finish h 0) ! 0) = loopIndex (sessions h ! 0)"
    by (simp_all add: finish_def Let_def)
qed

lemma steady_runWaves:
  assumes "tracking subs (min i (length subs)) h"
    and "awaiting (sessions h ! 0) = []" and "\<not> returned (sessions h ! 0)"
    and "onTranslated h = []" and "i < length subs \<or> dispatched h = length subs"
  shows "steady subs (runWaves (waveStarts i (length subs)) h 0)"
  using assms
proof (induction "length subs - i" arbitrary: i h rule: less_induct)
  case less
  note t = less.prems(1)
  have nc: "\<not> isCancelledRef h" by (rule trackingD(2) [OF t])
  have ls: "length (translatedSubtitles (sessions h ! 0)) = length subs"
    by (rule trackingD(3) [OF t])
  show ?case
  proof (cases "i < length subs")
    case False
    then have w: "waveStarts i (length subs) = []" by (subst waveStarts_rec) simp
    from False less.prems(5) have d: "dispatched h = length subs" by simp
    from False have "min i (length subs) = length subs" by simp
    with t have t': "tracking subs (length subs) h" by simp
    note f = tracking_finish [OF t']
    have df: "dispatched (finish h 0) = length subs"
      using d unfolding dispatched_def f(4) f(6) .
    show ?thesis unfolding w runWaves.simps steady_def df
      using f less.prems(2,4) by simp
  next
    case True
    then have w: "waveStarts i (length subs) = i # waveStarts (i + 5) (length subs)"
      by (subst waveStarts_rec) simp
    from True have "min i (length subs) = i" by simp
    with t have t': "tracking subs i h" by simp
    let ?h = "startWave h 0 i"
    note s = tracking_startWave [OF t' True]
    have ls': "length (translatedSubtitles (sessions ?h ! 0)) = length subs"
      by (rule trackingD(3) [OF s(1)])
    have d: "dispatched ?h = min (i + 5) (length subs)"
      unfolding dispatched_def ls' s(3) maxConcurrentItems_def by (simp add: min.commute)
    show ?thesis
    proof (cases "awaiting (sessions ?h ! 0) = []")
      case False
      have "steady subs ?h"
        unfolding steady_def d using s False less.prems(3,4) by simp
      then show ?thesis unfolding w using nc False by (simp add: Let_def)
    next
      case e: True
      have "steady subs (runWaves (waveStarts (i + 5) (length subs)) ?h 0)"
      proof (rule less.hyps)
        show "length subs - (i + 5) < length subs - i" using True by simp
        show "tracking subs (min (i + 5) (length subs)) ?h" by (rule s(1))
        show "awaiting (sessions ?h ! 0) = []" by (rule e)
        show "\<not> returned (sessions ?h ! 0)" using s(4) less.prems(3) by simp
        show "onTranslated ?h = []" using s(2) less.prems(4) by simp
        show "i + 5 < length subs \<or> dispatched ?h = length subs" unfolding d by auto
      qed
      then show ?thesis unfolding w using nc e by (simp add: Let_def)
    qed
  qed
qed

lemma filter_key_absent:
  "i \<notin> fst ` set xs \<Longrightarrow> filter (\<lambda>a. fst a \<noteq> i) xs = xs"
  by (induction xs) auto

lemma length_filter_key:
  "distinct (map fst xs) \<Longrightarrow> (i, t) \<in> set xs \<Longrightarrow>
   Suc (length (filter (\<lambda>a. fst a \<noteq> i) xs)) = length xs"
proof (induction xs)
  case Nil
  then show ?case by simp
next
  case (Cons x xs)
  show ?case
  proof (cases "fst x = i")
    case True
    with Cons.prems(1) have "i \<notin> fst ` set xs" by auto
    with True show ?thesis by (simp add: filter_key_absent)
  next
    case False
    with Cons.prems have "(i, t) \<in> set xs" "distinct (map fst xs)" by auto
    with Cons.IH False show ?thesis by simp
  qed
qed

lemma tracking_settled:
  fixes v :: jsstring and c :: "(jsstring \<times> jsstring) list"
  assumes t: "tracking subs d h" and m: "(i, txt0) \<in> set (awaiting (sessions h ! 0))"
  defines "h1 \<equiv> h\<lparr>sessions := (sessions h)
                      [0 := (sessions h ! 0)
                         \<lparr>awaiting := filter (\<lambda>a. fst a \<noteq> i) (awaiting (sessions h ! 0))\<rparr>]\<rparr>"
  defines "ok \<equiv> countCompleted ((setText h1 0 i v)\<lparr>translationCacheRef := c\<rparr>)"
  defines "ko \<equiv> (setText h1 0 i txt0)\<lparr>errorLog := errorLog h1 @ [(0, i)]\<rparr>"
  shows "tracking subs d ok" and "tracking subs d ko"
    and "awaiting (sessions ok ! 0) = filter (\<lambda>a. fst a \<noteq> i) (awaiting (sessions h ! 0))"
    and "awaiting (sessions ko ! 0) = filter (\<lambda>a. fst a \<noteq> i) (awaiting (sessions h ! 0))"
    and "loopIndex (sessions ok ! 0) = loopIndex (sessions h ! 0)"
    and "loopIndex (sessions ko ! 0) = loopIndex (sessions h ! 0)"
    and "returned (sessions ok ! 0) = returned (sessions h ! 0)"
    and "returned (sessions ko ! 0) = returned (sessions h ! 0)"
    and "onTranslated ok = onTranslated h" and "onTranslated ko = onTranslated h"
    and "line_text (translatedSubtitles (sessions ko ! 0) ! i) = line_text (subs ! i)"
    and "errorLog ko = errorLog h @ [(0, i)]"
    and "progressRef ko = progressRef h"
proof -
  let ?S = "sessions h ! 0"
  let ?A = "filter (\<lambda>a. fst a \<noteq> i) (awaiting ?S)"
  note len = trackingD(1) [OF t] and nc = trackingD(2) [OF t] and ls = trackingD(3) [OF t]
    and pe = trackingD(4) [OF t] and pt = trackingD(5) [OF t] and dl = trackingD(6) [OF t]
    and da = trackingD(7) [OF t]
    and aw = trackingD(8) [OF t] and de = trackingD(9) [OF t] and el = trackingD(10) [OF t]
    and cnt = trackingD(11) [OF t] and tx = trackingD(12) [OF t]
  have k0: "0 < length (sessions h)" using len by simp
  have k1: "0 < length (sessions h1)" using len by (simp add: h1_def)
  from aw [OF m] have id: "i < d" and t0: "txt0 = line_text (subs ! i)" by simp_all
  from id dl have il: "i < length subs" by simp
  have ni: "(0, i) \<notin> set (errorLog h)" using el [of 0 i] m by force
  have cA: "Suc (length ?A) = length (awaiting ?S)" using da m by (rule length_filter_key)
  have iA: "i \<notin> fst ` set ?A" by auto
  have sub: "set ?A \<subseteq> set (awaiting ?S)" by auto
  have inA: "j \<in> fst ` set ?A \<longleftrightarrow> j \<in> fst ` set (awaiting ?S) \<and> j \<noteq> i" for j by force
  have a1: "awaiting (sessions h1 ! 0) = ?A" using k0 by (simp add: h1_def)
  have s1: "translatedSubtitles (sessions h1 ! 0) = translatedSubtitles ?S"
    using k0 by (simp add: h1_def)
  have fr1: "loopIndex (sessions h1 ! 0) = loopIndex ?S" "returned (sessions h1 ! 0) = returned ?S"
    "onTranslated h1 = onTranslated h" "errorLog h1 = errorLog h" "progressRef h1 = progressRef h"
    "translationProgress h1 = translationProgress h" "isCancelledRef h1 = isCancelledRef h"
    "length (sessions h1) = 1"
    using k0 len by (simp_all add: h1_def)
  show aok: "awaiting (sessions ok ! 0) = ?A" using k1 a1 by (simp add: ok_def)
  show ako: "awaiting (sessions ko ! 0) = ?A" using k1 a1 by (simp add: ko_def)
  show "loopIndex (sessions ok ! 0) = loopIndex ?S" using k1 fr1 by (simp add: ok_def)
  show "loopIndex (sessions ko ! 0) = loopIndex ?S" using k1 fr1 by (simp add: ko_def)
  show "returned (sessions ok ! 0) = returned ?S" using k1 fr1 by (simp add: ok_def)
  show "returned (sessions ko ! 0) = returned ?S" using k1 fr1 by (simp add: ko_def)
  show "onTranslated ok = onTranslated h" using fr1 by (simp add: ok_def)
  show "onTranslated ko = onTranslated h" using fr1 by (simp add: ko_def)
  show eko: "errorLog ko = errorLog h @ [(0, i)]" using fr1 by (simp add: ko_def)
  show pko: "progressRef ko = progressRef h" using fr1 by (simp add: ko_def)
  have sok: "translatedSubtitles (sessions ok ! 0) =
      (translatedSubtitles ?S)[i := (translatedSubtitles ?S ! i)\<lparr>line_text := v\<rparr>]"
    using k1 s1 by (simp add: ok_def)
  have sko: "translatedSubtitles (sessions ko ! 0) =
      (translatedSubtitles ?S)[i := (translatedSubtitles ?S ! i)\<lparr>line_text := txt0\<rparr>]"
    using k1 s1 by (simp add: ko_def)
  show "line_text (translatedSubtitles (sessions ko ! 0) ! i) = line_text (subs ! i)"
    unfolding sko using il ls t0 by (simp add: line_text_update)
  show "tracking subs d ok"
  proof (rule trackingI)
    show "length (sessions ok) = 1" using fr1 by (simp add: ok_def)
    show "\<not> isCancelledRef ok" using nc fr1 by (simp add: ok_def)
    show "length (translatedSubtitles (sessions ok ! 0)) = length subs" unfolding sok using ls by simp
    show "translationProgress ok = progressRef ok" by (simp add: ok_def)
    show "snd (progressRef ok) = length subs" using pt fr1 by (simp add: ok_def)
    show "d \<le> length subs" by (rule dl)
    show "distinct (map fst (awaiting (sessions ok ! 0)))"
      unfolding aok using da by (simp add: distinct_map_filter)
    show "j < d \<and> u = line_text (subs ! j)" if "(j, u) \<in> set (awaiting (sessions ok ! 0))" for j u
      using that aw [of j u] unfolding aok by simp
    show "distinct (errorLog ok)" using de fr1 by (simp add: ok_def)
    show "k = 0 \<and> j < d \<and> j \<notin> fst ` set (awaiting (sessions ok ! 0))"
      if "(k, j) \<in> set (errorLog ok)" for k j
    proof -
      from that have "(k, j) \<in> set (errorLog h)" using fr1 by (simp add: ok_def)
      from el [OF this] show ?thesis unfolding aok inA by simp
    qed
    show "fst (progressRef ok) + length (errorLog ok) + length (awaiting (sessions ok ! 0)) = d"
      unfolding aok using cnt cA fr1 by (simp add: ok_def)
    show "line_text (translatedSubtitles (sessions ok ! 0) ! j) = line_text (subs ! j)"
      if j: "j < length subs"
        and c: "d \<le> j \<or> j \<in> fst ` set (awaiting (sessions ok ! 0)) \<or> (0, j) \<in> set (errorLog ok)"
      for j
    proof -
      from c have c': "d \<le> j \<or> (j \<in> fst ` set (awaiting ?S) \<and> j \<noteq> i) \<or> (0, j) \<in> set (errorLog h)"
        unfolding aok inA using fr1 by (simp add: ok_def)
      then have ne: "j \<noteq> i" using id ni by auto
      from c' have "d \<le> j \<or> j \<in> fst ` set (awaiting ?S) \<or> (0, j) \<in> set (errorLog h)" by auto
      from tx [OF j this] ne j il ls show ?thesis unfolding sok by (simp add: line_text_update)
    qed
  qed
  show "tracking subs d ko"
  proof (rule trackingI)
    show "length (sessions ko) = 1" using fr1 by (simp add: ko_def)
    show "\<not> isCancelledRef ko" using nc fr1 by (simp add: ko_def)
    show "length (translatedSubtitles (sessions ko ! 0)) = length subs" unfolding sko using ls by simp
    show "translationProgress ko = progressRef ko" using pe fr1 by (simp add: ko_def)
    show "snd (progressRef ko) = length subs" using pt fr1 by (simp add: ko_def)
    show "d \<le> length subs" by (rule dl)
    show "distinct (map fst (awaiting (sessions ko ! 0)))"
      unfolding ako using da by (simp add: distinct_map_filter)
    show "j < d \<and> u = line_text (subs ! j)" if "(j, u) \<in> set (awaiting (sessions ko ! 0))" for j u
      using that aw [of j u] unfolding ako by simp
    show "distinct (errorLog ko)" unfolding eko using de ni by simp
    show "k = 0 \<and> j < d \<and> j \<notin> fst ` set (awaiting (sessions ko ! 0))"
      if "(k, j) \<in> set (errorLog ko)" for k j
    proof (cases "(k, j) = (0, i)")
      case True
      then show ?thesis unfolding ako using id iA by simp
    next
      case False
      with that have "(k, j) \<in> set (errorLog h)" unfolding eko by auto
      from el [OF this] show ?thesis unfolding ako inA by simp
    qed
    show "fst (progressRef ko) + length (errorLog ko) + length (awaiting (sessions ko ! 0)) = d"
      unfolding ako eko pko using cnt cA by simp
    show "line_text (translatedSubtitles (sessions ko ! 0) ! j) = line_text (subs ! j)"
      if j: "j < length subs"
        and c: "d \<le> j \<or> j \<in> fst ` set (awaiting (sessions ko ! 0)) \<or> (0, j) \<in> set (errorLog ko)"
      for j
    proof (cases "j = i")
      case True
      then show ?thesis unfolding sko using il ls t0 by (simp add: line_text_update)
    next
      case False
      with c have "d \<le> j \<or> j \<in> fst ` set (awaiting ?S) \<or> (0, j) \<in> set (errorLog h)"
        unfolding ako eko inA by auto
      from tx [OF j this] False j il ls show ?thesis unfolding sko by (simp add: line_text_update)
    qed
  qed
qed

lemma find_key:
  "find (\<lambda>a. fst a = i) xs = Some (j, t) \<Longrightarrow> j = i \<and> (i, t) \<in> set xs"
  by (induction xs) (auto split: if_splits)

lemma find_key_None:
  "find (\<lambda>a. fst a = i) xs = None \<Longrightarrow> i \<notin> fst ` set xs"
  by (induction xs) (auto split: if_splits)

lemma find_key_Some:
  "distinct (map fst xs) \<Longrightarrow> (i, t) \<in> set xs \<Longrightarrow> find (\<lambda>a. fst a = i) xs = Some (i, t)"
  by (induction xs) (auto simp: image_iff)

lemma settled_failure:
  assumes "0 < length (sessions h)" and "find (\<lambda>a. fst a = i) (awaiting (sessions h ! 0)) = Some (j, t)"
  shows "settled h 0 i None =
     (let h2 = (setText (h\<lparr>sessions := (sessions h)
                      [0 := (sessions h ! 0)
                         \<lparr>awaiting := filter (\<lambda>a. fst a \<noteq> i) (awaiting (sessions h ! 0))\<rparr>]\<rparr>) 0 i t)
                 \<lparr>errorLog := errorLog h @ [(0, i)]\<rparr>
      in if awaiting (sessions h2 ! 0) = []
         then runWaves (waveStarts (loopIndex (sessions h2 ! 0) + maxConcurrentItems)
                          (length (translatedSubtitles (sessions h2 ! 0)))) h2 0
         else h2)"
  using assms by (simp add: settled_def Let_def)

lemma settled_success:
  assumes "0 < length (sessions h)" and "find (\<lambda>a. fst a = i) (awaiting (sessions h ! 0)) = Some (j, t)"
    and "\<not> isCancelledRef h"
  shows "settled h 0 i (Some v) =
     (let h1 = h\<lparr>sessions := (sessions h)
                      [0 := (sessions h ! 0)
                         \<lparr>awaiting := filter (\<lambda>a. fst a \<noteq> i) (awaiting (sessions h ! 0))\<rparr>]\<rparr>;
          h2 = countCompleted ((setText h1 0 i v)
                 \<lparr>translationCacheRef :=
                    AList.update (hookCacheKey t (target (sessions h ! 0))) v (translationCacheRef h)\<rparr>)
      in if awaiting (sessions h2 ! 0) = []
         then runWaves (waveStarts (loopIndex (sessions h2 ! 0) + maxConcurrentItems)
                          (length (translatedSubtitles (sessions h2 ! 0)))) h2 0
         else h2)"
  using assms by (simp add: settled_def Let_def)

lemma steady_after:
  assumes t: "tracking subs (dispatched h) h2" and nr: "\<not> returned (sessions h2 ! 0)"
    and on: "onTranslated h2 = []" and li: "loopIndex (sessions h2 ! 0) = loopIndex (sessions h ! 0)"
    and ls: "length (translatedSubtitles (sessions h ! 0)) = length subs"
  shows "steady subs
     (if awaiting (sessions h2 ! 0) = []
      then runWaves (waveStarts (loopIndex (sessions h2 ! 0) + maxConcurrentItems)
                          (length (translatedSubtitles (sessions h2 ! 0)))) h2 0
      else h2)"
proof -
  have ls2: "length (translatedSubtitles (sessions h2 ! 0)) = length subs"
    by (rule trackingD(3) [OF t])
  have d: "dispatched h2 = dispatched h" unfolding dispatched_def li ls ls2 ..
  have dm: "dispatched h = min (loopIndex (sessions h ! 0) + 5) (length subs)"
    unfolding dispatched_def ls maxConcurrentItems_def by (simp add: min.commute)
  show ?thesis
  proof (cases "awaiting (sessions h2 ! 0) = []")
    case False
    have "steady subs h2" unfolding steady_def d using t nr on False by simp
    with False show ?thesis by simp
  next
    case True
    have "steady subs (runWaves (waveStarts (loopIndex (sessions h ! 0) + 5) (length subs)) h2 0)"
    proof (rule steady_runWaves)
      show "tracking subs (min (loopIndex (sessions h ! 0) + 5) (length subs)) h2"
        using t unfolding dm .
      show "awaiting (sessions h2 ! 0) = []" by (rule True)
      show "\<not> returned (sessions h2 ! 0)" by (rule nr)
      show "onTranslated h2 = []" by (rule on)
      show "loopIndex (sessions h ! 0) + 5 < length subs \<or> dispatched h2 = length subs"
        unfolding d dm by auto
    qed
    with True show ?thesis unfolding li ls2 maxConcurrentItems_def by simp
  qed
qed

lemma steady_settled:
  assumes s: "steady subs h"
  shows "steady subs (settled h k i outcome)"
proof (cases "k < length (sessions h)")
  case False
  then show ?thesis using s by (simp add: settled_def)
next
  case True
  from s have t: "tracking subs (dispatched h) h" by (simp add: steady_def)
  from True trackingD(1) [OF t] have k: "k = 0" and k0: "0 < length (sessions h)" by simp_all
  show ?thesis
  proof (cases "find (\<lambda>a. fst a = i) (awaiting (sessions h ! 0))")
    case None
    then show ?thesis using s k k0 by (simp add: settled_def)
  next
    case (Some a)
    obtain j txt0 where a: "a = (j, txt0)" by (cases a)
    from find_key [OF Some [unfolded a]] have m: "(i, txt0) \<in> set (awaiting (sessions h ! 0))" by simp
    then have "awaiting (sessions h ! 0) \<noteq> []" by auto
    with s have nr: "\<not> returned (sessions h ! 0)" and on: "onTranslated h = []"
      by (auto simp: steady_def split: if_splits)
    note nc = trackingD(2) [OF t] and ls = trackingD(3) [OF t]
    show ?thesis
    proof (cases outcome)
      case None
      note r = tracking_settled [OF t m]
      have "errorLog (h\<lparr>sessions := (sessions h)
                      [0 := (sessions h ! 0)
                         \<lparr>awaiting := filter (\<lambda>a. fst a \<noteq> i) (awaiting (sessions h ! 0))\<rparr>]\<rparr>) = errorLog h"
        by simp
      with r(2) r(6) r(8) r(10) nr on ls
      show ?thesis unfolding k None settled_failure [OF k0 Some [unfolded a]] Let_def
        by (intro steady_after) simp_all
    next
      case (Some v)
      note r = tracking_settled(1,5,7,9) [OF t m, where v = v and
          c = "AList.update (hookCacheKey txt0 (target (sessions h ! 0))) v (translationCacheRef h)"]
      from r nr on ls
      show ?thesis unfolding k Some settled_success [OF k0 \<open>find _ _ = _\<close> [unfolded a] nc] Let_def
        by (intro steady_after) simp_all
    qed
  qed
qed

lemma translateItem_errorLog [simp]: "errorLog (translateItem h k i) = errorLog h"
  by (simp add: translateItem_def Let_def split: option.splits)

lemma startWave_errorLog [simp]: "errorLog (startWave h k i) = errorLog h"
proof -
  have "errorLog (foldl (\<lambda>h j. translateItem h k j) g js) = errorLog g" for g js
    by (induction js arbitrary: g) simp_all
  then show ?thesis by (simp add: startWave_def)
qed

lemma finish_errorLog [simp]: "errorLog (finish h k) = errorLog h"
  by (simp add: finish_def Let_def)

lemma runWaves_errorLog [simp]: "errorLog (runWaves ws h k) = errorLog h"
  by (induction ws arbitrary: h) (simp_all add: Let_def)

lemma steady_start:
  assumes "sessions h0 = []" and "errorLog h0 = []" and "onTranslated h0 = []"
    and "subtitles \<noteq> []"
  shows "steady subtitles (translateSubtitles h0 subtitles targetLang)"
proof -
  let ?h = "h0\<lparr>isTranslating := True, isCancelledRef := False,
                       translationProgress := (0, length subtitles),
                       progressRef := (0, length subtitles),
                       sessions := sessions h0 @
                         [\<lparr>translatedSubtitles = subtitles, target = targetLang, loopIndex = 0,
                           awaiting = [], returned = False\<rparr>]\<rparr>"
  have t: "tracking subtitles (min 0 (length subtitles)) ?h"
    using assms by (simp add: tracking_def)
  have "steady subtitles (runWaves (waveStarts 0 (length subtitles)) ?h 0)"
    using t
  proof (rule steady_runWaves)
    show "awaiting (sessions ?h ! 0) = []" using assms(1) by simp
    show "\<not> returned (sessions ?h ! 0)" using assms(1) by simp
    show "onTranslated ?h = []" using assms(3) by simp
    show "0 < length subtitles \<or> dispatched ?h = length subtitles" using assms(4) by simp
  qed
  then show ?thesis using assms(1,4) by (simp add: translateSubtitles_def Let_def)
qed

lemma hook_run_snoc: "hook_run h (es @ [e]) = hook_step (hook_run h es) e"
  by (simp add: hook_run_def)

lemma steady_run:
  assumes "sessions h0 = []" and "errorLog h0 = []" and "onTranslated h0 = []"
    and "subtitles \<noteq> []" and "list_all is_settlement es"
  shows "steady subtitles (hook_run h0 (TranslateSubtitles subtitles targetLang # es))"
  using assms(5)
proof (induction es rule: rev_induct)
  case Nil
  show ?case using steady_start [OF assms(1-4)] by (simp add: hook_run_def)
next
  case (snoc e es)
  then have s: "steady subtitles (hook_run h0 (TranslateSubtitles subtitles targetLang # es))"
    and e: "is_settlement e" by simp_all
  from e obtain k i outcome where "e = Settled k i outcome" by (cases e) simp_all
  with steady_settled [OF s] show ?case
    using hook_run_snoc [of h0 "TranslateSubtitles subtitles targetLang # es" e] by simp
qed

lemma failure_logged:
  assumes s: "steady subs h" and m: "(i, t) \<in> set (awaiting (sessions h ! 0))"
  shows "(0, i) \<in> set (errorLog (settled h 0 i None))"
proof -
  from s have tr: "tracking subs (dispatched h) h" by (simp add: steady_def)
  have k0: "0 < length (sessions h)" using trackingD(1) [OF tr] by simp
  from find_key_Some [OF trackingD(7) [OF tr] m]
  have f: "find (\<lambda>a. fst a = i) (awaiting (sessions h ! 0)) = Some (i, t)" .
  show ?thesis unfolding settled_failure [OF k0 f] Let_def by simp
qed

lemma steady_facts:
  assumes s: "steady subs h"
  shows "translationProgress h = progressRef h" and "snd (progressRef h) = length subs"
    and "fst (progressRef h) + length (errorLog h) + length (awaiting (sessions h ! 0)) = dispatched h"
    and "distinct (errorLog h)"
    and "\<And>i. (0, i) \<in> set (errorLog h) \<Longrightarrow>
           i < length subs \<and> line_text (translatedSubtitles (sessions h ! 0) ! i) = line_text (subs ! i)"
    and "returned (sessions h ! 0) \<Longrightarrow>
           onTranslated h = [(0, translatedSubtitles (sessions h ! 0))] \<and>
           fst (progressRef h) + length (errorLog h) = length subs"
    and "\<not> returned (sessions h ! 0) \<Longrightarrow> awaiting (sessions h ! 0) \<noteq> [] \<and> onTranslated h = []"
    and "length (translatedSubtitles (sessions h ! 0)) = length subs"
proof -
  from s have tr: "tracking subs (dispatched h) h" by (simp add: steady_def)
  show "translationProgress h = progressRef h" by (rule trackingD(4) [OF tr])
  show "snd (progressRef h) = length subs" by (rule trackingD(5) [OF tr])
  show c: "fst (progressRef h) + length (errorLog h) + length (awaiting (sessions h ! 0)) = dispatched h"
    by (rule trackingD(11) [OF tr])
  show "distinct (errorLog h)" by (rule trackingD(9) [OF tr])
  show "i < length subs \<and> line_text (translatedSubtitles (sessions h ! 0) ! i) = line_text (subs ! i)"
    if "(0, i) \<in> set (errorLog h)" for i
  proof -
    from trackingD(10) [OF tr that] trackingD(6) [OF tr] have "i < length subs" by simp
    with trackingD(12) [OF tr this] that show ?thesis by simp
  qed
  show "onTranslated h = [(0, translatedSubtitles (sessions h ! 0))] \<and>
           fst (progressRef h) + length (errorLog h) = length subs"
    if "returned (sessions h ! 0)"
    using s that c by (simp add: steady_def)
  show "awaiting (sessions h ! 0) \<noteq> [] \<and> onTranslated h = []" if "\<not> returned (sessions h ! 0)"
    using s that by (simp add: steady_def)
  show "length (translatedSubtitles (sessions h ! 0)) = length subs" by (rule trackingD(3) [OF tr])
qed

text \<open>
  Claim C5. In a session started on an idle hook and not cancelled, whatever the
  order and the outcomes of the remote calls: a call that is awaited and fails is
  reported; a record whose call failed has its original text, then and for the rest
  of the session; and the session goes on: either calls are still awaited and the
  callback has not been invoked, or the session has returned, the callback was
  invoked once with the whole list, and every record has been completed or
  reported as failed.
\<close>

theorem failed_record_keeps_original_text:
  assumes "sessions h0 = []" and "errorLog h0 = []" and "onTranslated h0 = []"
    and "subtitles \<noteq> []" and "list_all is_settlement es"
  shows
    "(\<forall>i t. (i, t) \<in> set (awaiting (sessions (hook_run h0 (TranslateSubtitles subtitles targetLang # es)) ! 0)) \<longrightarrow>
        (0, i) \<in> set (errorLog (hook_run h0 (TranslateSubtitles subtitles targetLang # es @ [Settled 0 i None])))) \<and>
     (\<forall>i. (0, i) \<in> set (errorLog (hook_run h0 (TranslateSubtitles subtitles targetLang # es))) \<longrightarrow>
        i < length subtitles \<and>
        line_text (translatedSubtitles (sessions (hook_run h0 (TranslateSubtitles subtitles targetLang # es)) ! 0) ! i) =
          line_text (subtitles ! i)) \<and>
     (if returned (sessions (hook_run h0 (TranslateSubtitles subtitles targetLang # es)) ! 0)
      then onTranslated (hook_run h0 (TranslateSubtitles subtitles targetLang # es)) =
             [(0, translatedSubtitles (sessions (hook_run h0 (TranslateSubtitles subtitles targetLang # es)) ! 0))] \<and>
           length (translatedSubtitles (sessions (hook_run h0 (TranslateSubtitles subtitles targetLang # es)) ! 0)) =
             length subtitles \<and>
           fst (progressRef (hook_run h0 (TranslateSubtitles subtitles targetLang # es))) +
             length (errorLog (hook_run h0 (TranslateSubtitles subtitles targetLang # es))) = length subtitles
      else awaiting (sessions (hook_run h0 (TranslateSubtitles subtitles targetLang # es)) ! 0) \<noteq> [] \<and>
           onTranslated (hook_run h0 (TranslateSubtitles subtitles targetLang # es)) = [])"
proof -
  let ?h = "hook_run h0 (TranslateSubtitles subtitles targetLang # es)"
  have s: "steady subtitles ?h" using assms by (rule steady_run)
  have a: "(0, i) \<in> set (errorLog (hook_run h0 (TranslateSubtitles subtitles targetLang # es @ [Settled 0 i None])))"
    if "(i, t) \<in> set (awaiting (sessions ?h ! 0))" for i t
    using failure_logged [OF s that]
      hook_run_snoc [of h0 "TranslateSubtitles subtitles targetLang # es" "Settled 0 i None"]
    by simp
  from a steady_facts(5) [OF s] steady_facts(6) [OF s] steady_facts(7) [OF s] steady_facts(8) [OF s]
  show ?thesis by auto
qed


lemma two_lines_run:
  "hook_run new_hook [TranslateSubtitles two_lines zh, Settled 0 0 (Some [0x4F60])] =
     new_hook\<lparr>isTranslating := True, translationProgress := (1, 2),
       translationCacheRef := [(hookCacheKey [0x61] zh, [0x4F60])], progressRef := (1, 2),
       sessions := [\<lparr>translatedSubtitles = [line 1 [0x4F60], line 2 [0x62]], target = zh,
                     loopIndex = 0, awaiting = [(1, [0x62])], returned = False\<rparr>]\<rparr>"
  by (simp add: hook_run_def two_lines_def translateSubtitles_def settled_def startWave_def
      translateItem_def setText_def countCompleted_def finish_def waveStarts_def new_hook_def
      maxConcurrentItems_def line_def hookCacheKey_def zh_def Let_def)

lemma two_lines_failed:
  "hook_run new_hook [TranslateSubtitles two_lines zh, Settled 0 0 (Some [0x4F60]), Settled 0 1 None] =
     new_hook\<lparr>isTranslating := False, translationProgress := (1, 2),
       translationCacheRef := [(hookCacheKey [0x61] zh, [0x4F60])], progressRef := (1, 2),
       sessions := [\<lparr>translatedSubtitles = [line 1 [0x4F60], line 2 [0x62]], target = zh,
                     loopIndex = 0, awaiting = [], returned = True\<rparr>],
       onTranslated := [(0, [line 1 [0x4F60], line 2 [0x62]])], errorLog := [(0, 1)]\<rparr>"
  by (simp add: hook_run_def two_lines_def translateSubtitles_def settled_def startWave_def
      translateItem_def setText_def countCompleted_def finish_def waveStarts_def new_hook_def
      maxConcurrentItems_def line_def hookCacheKey_def zh_def Let_def)

text \<open>
  Two records: the first is translated, the call for the second fails. The second
  keeps its text, the first has its translation, and the callback receives both.
\<close>

theorem failed_record_keeps_original_text_witness:
  "sessions new_hook = [] \<and> errorLog new_hook = [] \<and> onTranslated new_hook = [] \<and>
   two_lines \<noteq> [] \<and>
   list_all is_settlement [Settled 0 0 (Some [0x4F60]), Settled 0 1 None] \<and>
   (1, [0x62]) \<in> set (awaiting (sessions
      (hook_run new_hook [TranslateSubtitles two_lines zh, Settled 0 0 (Some [0x4F60])]) ! 0)) \<and>
   (0, 1) \<in> set (errorLog
      (hook_run new_hook [TranslateSubtitles two_lines zh, Settled 0 0 (Some [0x4F60]), Settled 0 1 None])) \<and>
   line_text (translatedSubtitles (sessions
      (hook_run new_hook [TranslateSubtitles two_lines zh, Settled 0 0 (Some [0x4F60]), Settled 0 1 None]) ! 0) ! 1) =
     line_text (two_lines ! 1) \<and>
   line_text (translatedSubtitles (sessions
      (hook_run new_hook [TranslateSubtitles two_lines zh, Settled 0 0 (Some [0x4F60]), Settled 0 1 None]) ! 0) ! 0) =
     [0x4F60] \<and>
   returned (sessions
      (hook_run new_hook [TranslateSubtitles two_lines zh, Settled 0 0 (Some [0x4F60]), Settled 0 1 None]) ! 0) \<and>
   onTranslated
      (hook_run new_hook [TranslateSubtitles two_lines zh, Settled 0 0 (Some [0x4F60]), Settled 0 1 None]) =
     [(0, [line 1 [0x4F60], line 2 [0x62]])]"
proof -
  let ?h1 = "hook_run new_hook [TranslateSubtitles two_lines zh, Settled 0 0 (Some [0x4F60])]"
  let ?h2 = "hook_run new_hook [TranslateSubtitles two_lines zh, Settled 0 0 (Some [0x4F60]), Settled 0 1 None]"
  have a: "sessions new_hook = []" "errorLog new_hook = []" "onTranslated new_hook = []"
    by (simp_all add: new_hook_def)
  have b: "two_lines \<noteq> []" by (simp add: two_lines_def)
  have c1: "list_all is_settlement [Settled 0 0 (Some [0x4F60])]" by simp
  have c2: "list_all is_settlement [Settled 0 0 (Some [0x4F60]), Settled 0 1 None]" by simp
  have m: "(1, [0x62]) \<in> set (awaiting (sessions ?h1 ! 0))" by (simp add: two_lines_run)
  from failed_record_keeps_original_text [OF a b c1, of zh] m
  have l: "(0, 1) \<in> set (errorLog ?h2)" by fastforce
  have r: "returned (sessions ?h2 ! 0)" unfolding two_lines_failed by simp
  note th = failed_record_keeps_original_text [OF a b c2, of zh]
  from th l have t: "line_text (translatedSubtitles (sessions ?h2 ! 0) ! 1) = line_text (two_lines ! 1)"
    by blast
  from th r have o: "onTranslated ?h2 = [(0, translatedSubtitles (sessions ?h2 ! 0))]"
    by (simp split: if_splits)
  have s: "translatedSubtitles (sessions ?h2 ! 0) = [line 1 [0x4F60], line 2 [0x62]]"
    unfolding two_lines_failed by simp
  from a b c2 m l r t o s show ?thesis by (simp add: line_def)
qed


text \<open>
  After a cancellation, as long as no new session is started, the flag stays set,
  the progress stays at 0 of 0 and the callback is not invoked.
\<close>

lemma runWaves_cancelled: "isCancelledRef h \<Longrightarrow> runWaves ws h k = finish h k"
  by (cases ws) simp_all

lemma cancelled_step:
  assumes "isCancelledRef h" and "\<not> is_start e"
  shows "isCancelledRef (hook_step h e) \<and> onTranslated (hook_step h e) = onTranslated h \<and>
         (translationProgress h = (0, 0) \<longrightarrow> translationProgress (hook_step h e) = (0, 0))"
proof (cases e)
  case (TranslateSubtitles subtitles targetLang)
  with assms(2) show ?thesis by simp
next
  case CancelTranslation
  then show ?thesis by (simp add: cancelTranslation_def)
next
  case (Settled k i outcome)
  have f: "isCancelledRef g \<Longrightarrow>
        isCancelledRef (finish g k) \<and> onTranslated (finish g k) = onTranslated g \<and>
        translationProgress (finish g k) = translationProgress g" for g
    by (simp add: finish_def Let_def)
  show ?thesis
    unfolding Settled hook_step.simps settled_def using assms(1) f
    by (auto simp: Let_def runWaves_cancelled split: option.splits)
qed

lemma cancel_without_restart:
  assumes "list_all (\<lambda>e. \<not> is_start e) es"
  shows "isCancelledRef (hook_run (cancelTranslation h) es) \<and>
         onTranslated (hook_run (cancelTranslation h) es) = onTranslated h \<and>
         translationProgress (hook_run (cancelTranslation h) es) = (0, 0)"
  using assms
proof (induction es rule: rev_induct)
  case Nil
  then show ?case by (simp add: hook_run_def cancelTranslation_def)
next
  case (snoc e es)
  then have IH: "isCancelledRef (hook_run (cancelTranslation h) es)"
    "onTranslated (hook_run (cancelTranslation h) es) = onTranslated h"
    "translationProgress (hook_run (cancelTranslation h) es) = (0, 0)"
    and e: "\<not> is_start e" by simp_all
  from cancelled_step [OF IH(1) e] IH(2,3) show ?case
    by (simp add: hook_run_snoc)
qed

text \<open>
  Claim C4 fails on the code. A session is started and cancelled while its call is
  in flight: the progress reads 0 of 0 and the callback has not been invoked. A
  second session is then started, which resets the shared flag; when the call of
  the first session resolves, its result is written back, it is counted in the
  progress, and the callback is invoked for the cancelled session.
\<close>

theorem cancelled_session_completes_after_restart:
  "awaiting (sessions (hook_run new_hook (take 2 restart_trace)) ! 0) = [(0, [0x61])] \<and>
   isCancelledRef (hook_run new_hook (take 2 restart_trace)) \<and>
   translationProgress (hook_run new_hook (take 2 restart_trace)) = (0, 0) \<and>
   onTranslated (hook_run new_hook (take 2 restart_trace)) = [] \<and>
   onTranslated (hook_run new_hook restart_trace) = [(0, [line 1 [0x4F60]])] \<and>
   translationProgress (hook_run new_hook restart_trace) = (1, 1)"
  by (simp add: restart_trace_def hook_run_def translateSubtitles_def settled_def startWave_def
      translateItem_def setText_def countCompleted_def finish_def waveStarts_def new_hook_def
      cancelTranslation_def maxConcurrentItems_def line_def hookCacheKey_def zh_def Let_def)

end
